theory Spec2Isabelle
  imports Main "HOL-Library.Sublist"
begin

section \<open>Strings and regular expressions of the host language\<close>

text \<open>
  The extension is TypeScript. Its strings are modelled as \<open>string\<close>; a character
  stands for one code unit in the range 0..255. The regular expressions of
  \<^verbatim>\<open>tasks.ts\<close> are written as values of the datatype \<open>regex\<close> below and run
  by a backtracking matcher that lists every way a pattern can match, in the
  order in which the backtracking matcher of the language tries them (greedy
  quantifiers, left alternative first). The first entry of that list is the
  match the language reports.
\<close>

abbreviation TAB :: char where "TAB \<equiv> CHR 0x09"
abbreviation LF :: char where "LF \<equiv> CHR 0x0A"
abbreviation CR :: char where "CR \<equiv> CHR 0x0D"
abbreviation BSL :: char where "BSL \<equiv> CHR 0x5C"

datatype cset = Any | One char | Range char char | Union cset cset

text \<open>\<open>Any\<close> is the dot: every character but a line terminator. Of the line
  terminators of the language (line feed, carriage return, U+2028, U+2029),
  line feed and carriage return are characters of the model; the other two
  are not, so a text of the model never holds them.\<close>

fun cs_mem :: "cset \<Rightarrow> char \<Rightarrow> bool" where
  "cs_mem Any c = (c \<noteq> LF \<and> c \<noteq> CR)"
| "cs_mem (One a) c = (c = a)"
| "cs_mem (Range a b) c = ((of_char a :: nat) \<le> of_char c \<and> (of_char c :: nat) \<le> of_char b)"
| "cs_mem (Union x y) c = (cs_mem x c \<or> cs_mem y c)"

text \<open>
  Every quantifier of the source applies to a single-character class, so
  \<open>Star\<close> and \<open>Plus\<close> take a \<open>cset\<close>. \<open>Bol\<close> is the anchor \<^verbatim>\<open>^\<close> (no
  multiline flag is used), \<open>Group n\<close> the n-th capturing group.
\<close>

datatype regex =
    Bol
  | Eps
  | Sym cset
  | Cat regex regex
  | Alt regex regex
  | Star cset
  | Plus cset
  | Group nat regex

primrec lit :: "string \<Rightarrow> regex" where
  "lit [] = Eps"
| "lit (c # cs) = Cat (Sym (One c)) (lit cs)"

type_synonym captures = "nat \<rightharpoonup> string"

text \<open>A matcher state: the index reached, the input still unread, the captures so far.\<close>

type_synonym mstate = "nat \<times> string \<times> captures"

fun star_run :: "cset \<Rightarrow> nat \<Rightarrow> string \<Rightarrow> (nat \<times> string) list" where
  "star_run cs i [] = [(i, [])]"
| "star_run cs i (c # s) =
     (if cs_mem cs c then star_run cs (Suc i) s else []) @ [(i, c # s)]"

fun matches :: "regex \<Rightarrow> mstate \<Rightarrow> mstate list" where
  "matches Bol (i, s, g) = (if i = 0 then [(i, s, g)] else [])"
| "matches Eps st = [st]"
| "matches (Sym cs) (i, s, g) =
     (case s of [] \<Rightarrow> [] | c # t \<Rightarrow> if cs_mem cs c then [(Suc i, t, g)] else [])"
| "matches (Cat a b) st = concat (map (matches b) (matches a st))"
| "matches (Alt a b) st = matches a st @ matches b st"
| "matches (Star cs) (i, s, g) = map (\<lambda>(j, t). (j, t, g)) (star_run cs i s)"
| "matches (Plus cs) (i, s, g) =
     (case s of [] \<Rightarrow> []
      | c # t \<Rightarrow> if cs_mem cs c then map (\<lambda>(j, t'). (j, t', g)) (star_run cs (Suc i) t) else [])"
| "matches (Group n r) (i, s, g) =
     map (\<lambda>(j, t, h). (j, t, h(n \<mapsto> take (j - i) s))) (matches r (i, s, g))"

text \<open>
  \<open>search r i s\<close> is the regular expression search of the language on the input
  whose unread part \<open>s\<close> starts at index \<open>i\<close>: the first start index at which
  \<open>r\<close> matches, with the end state of the preferred match there.
\<close>

fun search :: "regex \<Rightarrow> nat \<Rightarrow> string \<Rightarrow> (nat \<times> mstate) option" where
  "search r i [] = (case matches r (i, [], Map.empty) of [] \<Rightarrow> None | st # _ \<Rightarrow> Some (i, st))"
| "search r i (c # s) =
     (case matches r (i, c # s, Map.empty) of
        [] \<Rightarrow> search r (Suc i) s
      | st # _ \<Rightarrow> Some (i, st))"

text \<open>\<^verbatim>\<open>str.match(re)\<close> for a regular expression without the global flag: the
  captures of the first match (group 0 is the whole match), or \<open>None\<close> for null.\<close>

definition js_match :: "regex \<Rightarrow> string \<Rightarrow> captures option" where
  "js_match r s =
     (case search r 0 s of
        None \<Rightarrow> None
      | Some (k, (j, t, g)) \<Rightarrow> Some (g(0 \<mapsto> take (j - k) (drop k s))))"

text \<open>
  A replacement string is a list of literal pieces and group references
  (\<^verbatim>\<open>$1\<close>); a group that took no part in the match expands to the empty string.
\<close>

datatype tpart = TLit string | TGroup nat

fun expand :: "tpart list \<Rightarrow> captures \<Rightarrow> string" where
  "expand [] g = []"
| "expand (TLit s # ps) g = s @ expand ps g"
| "expand (TGroup n # ps) g = (case g n of None \<Rightarrow> [] | Some s \<Rightarrow> s) @ expand ps g"

text \<open>\<^verbatim>\<open>str.replace(re, template)\<close> without the global flag: only the first match
  is replaced.\<close>

definition replace_first :: "regex \<Rightarrow> tpart list \<Rightarrow> string \<Rightarrow> string" where
  "replace_first r tp s =
     (case search r 0 s of
        None \<Rightarrow> s
      | Some (k, (j, t, g)) \<Rightarrow> take k s @ expand tp g @ drop j s)"

text \<open>
  \<^verbatim>\<open>str.replace(re, template)\<close> with the global flag, on the input whose unread
  part \<open>s\<close> starts at index \<open>i\<close>: every match is replaced, the search going on
  at the end index of the last match (one character further after an empty
  match).
\<close>

fun replace_all :: "regex \<Rightarrow> tpart list \<Rightarrow> nat \<Rightarrow> string \<Rightarrow> string" where
  "replace_all r tp i [] =
     (case matches r (i, [], Map.empty) of [] \<Rightarrow> [] | (j, t, g) # _ \<Rightarrow> expand tp g)"
| "replace_all r tp i (c # s) =
     (case matches r (i, c # s, Map.empty) of
        [] \<Rightarrow> c # replace_all r tp (Suc i) s
      | (j, t, g) # _ \<Rightarrow>
          expand tp g @
          (if j \<le> i then c # replace_all r tp (Suc i) s
           else replace_all r tp j (drop (j - i) (c # s))))"

text \<open>\<^verbatim>\<open>str.split('\n')\<close>.\<close>

fun split_on :: "char \<Rightarrow> string \<Rightarrow> string list" where
  "split_on d [] = [[]]"
| "split_on d (c # s) =
     (if c = d then [] # split_on d s
      else (case split_on d s of [] \<Rightarrow> [[c]] | l # ls \<Rightarrow> (c # l) # ls))"

definition digit :: cset where
  "digit = Range CHR ''0'' CHR ''9''"

definition letter :: cset where
  "letter = Union (Range CHR ''a'' CHR ''z'') (Range CHR ''A'' CHR ''Z'')"

text \<open>
  \<^verbatim>\<open>parseInt(s, 10)\<close> on a capture of \<^verbatim>\<open>[0-9]+\<close>: the value of the decimal
  digits. The model is exact. A number of the language is a double, which is
  the value of the digits only while that is below \<open>2^53\<close>; above, the
  language rounds and the model does not. The theorems that read a number
  are stated for values below \<open>2^53\<close> (\<open>coordinate\<close>).
\<close>

definition parseInt :: "string \<Rightarrow> int" where
  "parseInt s = foldl (\<lambda>n c. 10 * n + (int (of_char c) - 48)) 0 (takeWhile (cs_mem digit) s)"

section \<open>Path conversion\<close>

definition wsl :: string where
  "wsl = ''C:'' @ [BSL] @ ''Windows'' @ [BSL] @ ''System32'' @ [BSL] @ ''wsl.exe''"

definition wsl_bash :: string where
  "wsl_bash = ''C:'' @ [BSL] @ ''Windows'' @ [BSL] @ ''System32'' @ [BSL] @ ''bash.exe''"

definition git_bash_x64 :: string where
  "git_bash_x64 = ''C:'' @ [BSL] @ ''Program Files'' @ [BSL] @ ''Git'' @ [BSL] @ ''bin'' @ [BSL] @ ''bash.exe''"

definition git_bash_x32 :: string where
  "git_bash_x32 = ''C:'' @ [BSL] @ ''Program Files (x86)'' @ [BSL] @ ''Git'' @ [BSL] @ ''bin'' @ [BSL] @ ''bash.exe''"

definition linux_osx_bash :: string where
  "linux_osx_bash = ''/bin/bash''"

text \<open>A shell is a string or \<^verbatim>\<open>undefined\<close> (\<open>None\<close>), which \<open>resolveBashShell\<close> can return.\<close>

definition isWsl :: "string option \<Rightarrow> bool" where
  "isWsl shell = (shell = Some wsl_bash)"

text \<open>\<^verbatim>\<open>/([a-zA-Z]):/\<close>, \<^verbatim>\<open>/\\/g\<close>, \<^verbatim>\<open>/ /g\<close> and \<^verbatim>\<open>/\/mnt\/([a-z])\//g\<close>.\<close>

definition re_drive :: regex where
  "re_drive = Cat (Group 1 (Sym letter)) (Sym (One CHR '':''))"

definition re_backslash :: regex where
  "re_backslash = Sym (One BSL)"

definition re_space :: regex where
  "re_space = Sym (One CHR '' '')"

definition re_mnt :: regex where
  "re_mnt = Cat (lit ''/mnt/'') (Cat (Group 1 (Sym (Range CHR ''a'' CHR ''z''))) (Sym (One CHR ''/'')))"

definition pathToBashPath :: "string \<Rightarrow> string option \<Rightarrow> string" where
  "pathToBashPath path shell =
     replace_all re_space [TLit [BSL, CHR '' '']] 0
       (replace_all re_backslash [TLit ''/''] 0
         (replace_first re_drive
            (if isWsl shell then [TLit ''/mnt/'', TGroup 1] else [TGroup 1, TLit '':'']) path))"

definition bashPathsToWinPaths :: "string \<Rightarrow> string option \<Rightarrow> string" where
  "bashPathsToWinPaths string shell =
     (if isWsl shell then replace_all re_mnt [TGroup 1, TLit '':/''] 0 string else string)"

text \<open>A path with a slash for every backslash: what the round trip through
  both conversions gives, as shown below.\<close>

definition slashes :: "string \<Rightarrow> string" where
  "slashes s = map (\<lambda>c. if c = BSL then CHR ''/'' else c) s"

section \<open>The host: configuration, platform, file system and path library\<close>

text \<open>
  What \<^verbatim>\<open>tasks.ts\<close> reads from the editor, from the process and from the
  \<^verbatim>\<open>fs\<close> and \<^verbatim>\<open>path\<close> modules is a parameter of the model: the configured
  task shell (\<open>None\<close> for \<^verbatim>\<open>undefined\<close>), the platform, the existence test, the
  functions \<^verbatim>\<open>path.parse(p).root\<close>, \<^verbatim>\<open>path.dirname\<close>, \<^verbatim>\<open>path.join\<close> and
  \<^verbatim>\<open>path.basename\<close>, the workspace root and the file name of the active editor
  (\<open>None\<close> when there is no active editor).
\<close>

record host =
  config_taskShell :: "string option"
  platform :: string
  fs_exists :: "string \<Rightarrow> bool"
  path_root :: "string \<Rightarrow> string"
  path_dirname :: "string \<Rightarrow> string"
  path_join :: "string \<Rightarrow> string \<Rightarrow> string"
  path_basename :: "string \<Rightarrow> string"
  workspace_rootPath :: "string option"
  activeTextEditor_fileName :: "string option"

section \<open>Shell resolver\<close>

text \<open>
  The result of \<open>resolveBashShell\<close> with its effects: the value returned
  (\<open>None\<close> for \<^verbatim>\<open>undefined\<close>), the files whose existence was tested, in order,
  and the error messages shown.
\<close>

record shell_result =
  returned :: "string option"
  probed :: "string list"
  errors_shown :: "string list"

definition no_shell_error :: string where
  "no_shell_error = ''Could not locate a bash shell for executing Alan tasks. Please set one in the extension'' @ [CHR 0x27] @ ''s settings.''"

text \<open>The probing of the known install locations on \<^verbatim>\<open>win32\<close>.\<close>

definition probe_win32 :: "host \<Rightarrow> shell_result" where
  "probe_win32 h =
     (if fs_exists h wsl then \<lparr>returned = Some wsl_bash, probed = [wsl], errors_shown = []\<rparr>
      else if fs_exists h git_bash_x64 then
        \<lparr>returned = Some git_bash_x64, probed = [wsl, git_bash_x64], errors_shown = []\<rparr>
      else if fs_exists h git_bash_x32 then
        \<lparr>returned = Some git_bash_x32, probed = [wsl, git_bash_x64, git_bash_x32], errors_shown = []\<rparr>
      else \<lparr>returned = None, probed = [wsl, git_bash_x64, git_bash_x32], errors_shown = [no_shell_error]\<rparr>)"

text \<open>The first test is \<^verbatim>\<open>shell && shell !== null && shell !== ''\<close>: a string
  that is not empty.\<close>

definition resolveBashShell :: "host \<Rightarrow> shell_result" where
  "resolveBashShell h =
     (case config_taskShell h of
        Some (c # cs) \<Rightarrow> \<lparr>returned = Some (c # cs), probed = [], errors_shown = []\<rparr>
      | _ \<Rightarrow>
          if platform h = ''win32'' then probe_win32 h
          else \<lparr>returned = Some linux_osx_bash, probed = [], errors_shown = []\<rparr>)"

section \<open>Project-root locator\<close>

text \<open>
  The promise of \<open>resolveAlanRoot\<close> is resolved with a directory or rejected.
  The inner function \<^verbatim>\<open>find\<close> calls itself on the parent directory with no
  bound, so it is a partial function: \<open>None\<close> is a promise that is never
  settled.
\<close>

datatype 'a settled = Resolved 'a | Rejected

partial_function (option) find_dir :: "host \<Rightarrow> string \<Rightarrow> string \<Rightarrow> string settled option" where
  "find_dir h root curdir =
     (if curdir = root then Some Rejected
      else if \<not> fs_exists h (path_join h curdir ''alan'') then find_dir h root (path_dirname h curdir)
      else Some (Resolved curdir))"

declare find_dir.simps [code]

definition resolveAlanRoot :: "host \<Rightarrow> string \<Rightarrow> string settled option" where
  "resolveAlanRoot h file_dir = find_dir h (path_root h file_dir) file_dir"

section \<open>Diagnostic parser\<close>

datatype severity = Error | Warning | Information | Hint

text \<open>
  A range is the four arguments that \<^verbatim>\<open>tasks.ts\<close> gives to the constructor of
  the editor's \<^verbatim>\<open>Range\<close>: start line, start character, end line, end
  character. The class itself belongs to the editor, not to the extension;
  what it does with its arguments is not part of the model.
\<close>

record vs_range =
  start_line :: int
  start_character :: int
  end_line :: int
  end_character :: int

record diagnostic =
  diag_range :: vs_range
  message :: string
  severity :: severity

datatype uri = Uri_file string

definition getSeverity :: "string \<Rightarrow> severity" where
  "getSeverity sev =
     (if sev = ''error'' then Error else if sev = ''warning'' then Warning else Information)"

text \<open>
  The four patterns of the output parser, in the order in which they are
  tried:
  \<^item> \<^verbatim>\<open>/^((?:\/|[a-zA-Z]:).*\.alan) from ([0-9]+):([0-9]+) to ([0-9]+):([0-9]+) (error|warning|info): (.*)/\<close>
  \<^item> \<^verbatim>\<open>/^((?:\/|[a-zA-Z]:).*\.alan) at ([0-9]+):([0-9]+) (error|warning|info): (.*)/\<close>
  \<^item> \<^verbatim>\<open>/^((?:\/|[a-zA-Z]:).*\.link) (error|warning|info): (.*)/\<close>
  \<^item> \<^verbatim>\<open>/^((?:\/|[a-zA-Z]:).*\.alan) (error|warning|info): (.*)/\<close>

  \<open>path_start\<close> is their common part \<^verbatim>\<open>(?:\/|[a-zA-Z]:)\<close> and \<open>sev_token\<close> the
  alternative \<^verbatim>\<open>error|warning|info\<close>.
\<close>

definition path_start :: regex where
  "path_start = Alt (Sym (One CHR ''/'')) (Cat (Sym letter) (Sym (One CHR '':'')))"

definition sev_token :: regex where
  "sev_token = Alt (lit ''error'') (Alt (lit ''warning'') (lit ''info''))"

definition re_range :: regex where
  "re_range =
     Cat Bol (Cat (Group 1 (Cat path_start (Cat (Star Any) (lit ''.alan''))))
       (Cat (lit '' from '') (Cat (Group 2 (Plus digit)) (Cat (lit '':'') (Cat (Group 3 (Plus digit))
       (Cat (lit '' to '') (Cat (Group 4 (Plus digit)) (Cat (lit '':'') (Cat (Group 5 (Plus digit))
       (Cat (lit '' '') (Cat (Group 6 sev_token) (Cat (lit '': '') (Group 7 (Star Any))))))))))))))"

definition re_locat :: regex where
  "re_locat =
     Cat Bol (Cat (Group 1 (Cat path_start (Cat (Star Any) (lit ''.alan''))))
       (Cat (lit '' at '') (Cat (Group 2 (Plus digit)) (Cat (lit '':'') (Cat (Group 3 (Plus digit))
       (Cat (lit '' '') (Cat (Group 4 sev_token) (Cat (lit '': '') (Group 5 (Star Any))))))))))"

definition re_link :: regex where
  "re_link =
     Cat Bol (Cat (Group 1 (Cat path_start (Cat (Star Any) (lit ''.link''))))
       (Cat (lit '' '') (Cat (Group 2 sev_token) (Cat (lit '': '') (Group 3 (Star Any))))))"

definition re_other :: regex where
  "re_other =
     Cat Bol (Cat (Group 1 (Cat path_start (Cat (Star Any) (lit ''.alan''))))
       (Cat (lit '' '') (Cat (Group 2 sev_token) (Cat (lit '': '') (Group 3 (Star Any))))))"

text \<open>\<open>grp m n\<close> is \<^verbatim>\<open>m[n]\<close>. Every group of the four patterns takes part in
  every match, so the value for a missing group is never read.\<close>

definition grp :: "captures \<Rightarrow> nat \<Rightarrow> string" where
  "grp m n = (case m n of None \<Rightarrow> [] | Some s \<Rightarrow> s)"

text \<open>
  The state of the output parser. Diagnostics are objects: \<open>objects\<close> is the
  store (an address is an index), \<open>current_diagnostic\<close> and the entries of
  \<open>diagnostics\<close> hold addresses, so that a change of the message through
  \<open>current_diagnostic\<close> is seen through \<open>diagnostics\<close>.
\<close>

record parser_state =
  objects :: "diagnostic list"
  current_diagnostic :: "nat option"
  diagnostics :: "(uri \<times> nat list) list"

definition initial_state :: parser_state where
  "initial_state = \<lparr>objects = [], current_diagnostic = None, diagnostics = []\<rparr>"

text \<open>The three statements that end each matching branch: a new diagnostic
  is made, becomes the current one and is pushed with its file. The message
  of the current diagnostic gets a line feed and the line; the address is
  that of an object of the store, as \<open>current_diagnostic\<close> is only ever set to
  the address of a new object.\<close>

definition push_diagnostic :: "string \<Rightarrow> vs_range \<Rightarrow> string \<Rightarrow> string \<Rightarrow> parser_state \<Rightarrow> parser_state" where
  "push_diagnostic file rng msg sev st =
     \<lparr>objects = objects st @ [\<lparr>diag_range = rng, message = msg, severity = getSeverity sev\<rparr>],
      current_diagnostic = Some (length (objects st)),
      diagnostics = diagnostics st @ [(Uri_file file, [length (objects st)])]\<rparr>"

definition append_message :: "string \<Rightarrow> nat \<Rightarrow> parser_state \<Rightarrow> parser_state" where
  "append_message line a st =
     st\<lparr>objects := (objects st)[a := (objects st ! a)\<lparr>message := message (objects st ! a) @ [LF] @ line\<rparr>]\<rparr>"

text \<open>The body of \<^verbatim>\<open>lines.forEach\<close>.\<close>

definition parse_line :: "string \<Rightarrow> parser_state \<Rightarrow> parser_state" where
  "parse_line line st =
     (case js_match re_range line of
        Some m \<Rightarrow>
          push_diagnostic (grp m 1)
            \<lparr>start_line = parseInt (grp m 2) - 1, start_character = parseInt (grp m 3) - 1,
             end_line = parseInt (grp m 4) - 1, end_character = parseInt (grp m 5) - 1\<rparr>
            (grp m 7) (grp m 6) st
      | None \<Rightarrow>
     (case js_match re_locat line of
        Some m \<Rightarrow>
          push_diagnostic (grp m 1)
            \<lparr>start_line = parseInt (grp m 2) - 1, start_character = parseInt (grp m 3) - 1,
             end_line = parseInt (grp m 2) - 1, end_character = parseInt (grp m 3) - 1\<rparr>
            (grp m 5) (grp m 4) st
      | None \<Rightarrow>
     (case js_match re_link line of
        Some m \<Rightarrow>
          push_diagnostic (grp m 1)
            \<lparr>start_line = 0, start_character = 0, end_line = 0, end_character = 0\<rparr>
            (grp m 3) (grp m 2) st
      | None \<Rightarrow>
     (case js_match re_other line of
        Some m \<Rightarrow>
          push_diagnostic (grp m 1)
            \<lparr>start_line = 0, start_character = 0, end_line = 0, end_character = 0\<rparr>
            (grp m 3) (grp m 2) st
      | None \<Rightarrow>
     (case current_diagnostic st of
        Some a \<Rightarrow> if prefix [TAB] line then append_message line a st else st
      | None \<Rightarrow> st)))))"

definition parse_lines :: "string list \<Rightarrow> parser_state \<Rightarrow> parser_state" where
  "parse_lines lines st = foldl (\<lambda>st line. parse_line line st) st lines"

text \<open>The value given to \<^verbatim>\<open>diagnostics_collection.set\<close>: the array of pairs,
  with the objects read from the store.\<close>

definition collected :: "parser_state \<Rightarrow> (uri \<times> diagnostic list) list" where
  "collected st = map (\<lambda>(file, refs). (file, map (\<lambda>a. objects st ! a) refs)) (diagnostics st)"

text \<open>The parser run by the \<^verbatim>\<open>close\<close> handler on the accumulated output.\<close>

definition parse_output :: "string \<Rightarrow> (uri \<times> diagnostic list) list" where
  "parse_output output_acc = collected (parse_lines (split_on LF output_acc) initial_state)"

section \<open>Task catalog\<close>

record shell_execution_options =
  executable :: "string option"
  cwd :: string
  shellArgs :: "string list"

datatype task_group = Clean | Build

datatype reveal_kind = RevealAlways | RevealSilent | RevealNever

record presentation_options =
  clear :: bool
  reveal :: reveal_kind
  showReuseMessage :: bool
  focus :: bool

text \<open>
  A task: the two fields of its definition, its name and source, the command
  line of its shell execution and the address of the options object of that
  execution, its problem matchers, group and presentation options.
\<close>

record task =
  definition_type :: string
  definition_task :: string
  task_name :: string
  task_source :: string
  commandLine :: string
  options_ref :: nat
  problemMatchers :: "string list"
  task_group :: "task_group option"
  presentationOptions :: "presentation_options option"

text \<open>The list returned by \<open>getTasksList\<close>, with the store of the options
  objects its tasks refer to: the four executions are built on the one object
  \<^verbatim>\<open>default_options\<close>, at address 0.\<close>

record catalog =
  options_objects :: "shell_execution_options list"
  tasks :: "task list"

definition no_tasks :: catalog where
  "no_tasks = \<lparr>options_objects = [], tasks = []\<rparr>"

definition fetch_task :: "string \<Rightarrow> task" where
  "fetch_task alan =
     \<lparr>definition_type = ''alan'', definition_task = ''fetch'', task_name = ''fetch'',
      task_source = ''alan'', commandLine = alan @ '' fetch'', options_ref = 0,
      problemMatchers = [], task_group = Some Clean,
      presentationOptions =
        Some \<lparr>clear = True, reveal = RevealAlways, showReuseMessage = False, focus = False\<rparr>\<rparr>"

definition build_task :: task where
  "build_task =
     \<lparr>definition_type = ''alan'', definition_task = ''build'', task_name = ''build'',
      task_source = ''alan'', commandLine = ''${command:alan.tasks.build}'', options_ref = 0,
      problemMatchers = [], task_group = Some Build, presentationOptions = None\<rparr>"

definition migration_task :: task where
  "migration_task =
     \<lparr>definition_type = ''alan'', definition_task = ''generate migration'',
      task_name = ''generate migration'', task_source = ''alan'',
      commandLine = ''${command:alan.tasks.generateMigration}'', options_ref = 0,
      problemMatchers = [], task_group = Some Clean, presentationOptions = None\<rparr>"

definition package_task :: task where
  "package_task =
     \<lparr>definition_type = ''alan'', definition_task = ''package'', task_name = ''package'',
      task_source = ''alan'', commandLine = ''${command:alan.tasks.package}'', options_ref = 0,
      problemMatchers = [], task_group = Some Build, presentationOptions = None\<rparr>"

text \<open>
  \<open>getTasksList\<close>. A missing or empty workspace root gives the empty list; so
  does any exception in the \<^verbatim>\<open>try\<close> block: no active editor, or a rejected
  root promise. \<open>None\<close> is a call that never returns, when the root promise is
  never settled.
\<close>

definition getTasksList :: "host \<Rightarrow> catalog option" where
  "getTasksList h =
     (case workspace_rootPath h of
        Some (w # ws) \<Rightarrow>
          (let shell = returned (resolveBashShell h) in
           case activeTextEditor_fileName h of
             None \<Rightarrow> Some no_tasks
           | Some active_file_name \<Rightarrow>
               (case resolveAlanRoot h (path_dirname h active_file_name) of
                  None \<Rightarrow> None
                | Some Rejected \<Rightarrow> Some no_tasks
                | Some (Resolved alan_root) \<Rightarrow>
                    (let alan_root_folder = pathToBashPath alan_root shell;
                         alan = pathToBashPath (alan_root @ ''/alan'') shell;
                         default_options =
                           \<lparr>executable = shell, cwd = ''${fileDirname}'', shellArgs = [''-c'']\<rparr>;
                         result = [fetch_task alan, build_task, migration_task]
                     in if path_basename h active_file_name = ''connections.alan''
                        then Some \<lparr>options_objects = [default_options\<lparr>cwd := alan_root_folder\<rparr>],
                                   tasks = result @ [package_task]\<rparr>
                        else Some \<lparr>options_objects = [default_options], tasks = result\<rparr>)))
      | _ \<Rightarrow> Some no_tasks)"

section \<open>A concrete host\<close>

text \<open>
  A host with the path functions of a POSIX system on normalised paths (one
  slash between names, none at the end), a file system given by the list of
  the paths that exist, and the given platform, configured shell and active
  file. It is the host of the examples.
\<close>

definition posix_root :: "string \<Rightarrow> string" where
  "posix_root p = (case p of [] \<Rightarrow> [] | c # _ \<Rightarrow> if c = CHR ''/'' then ''/'' else [])"

definition posix_dirname :: "string \<Rightarrow> string" where
  "posix_dirname p =
     (case rev (tl (dropWhile (\<lambda>c. c \<noteq> CHR ''/'') (rev p))) of
        [] \<Rightarrow> if posix_root p = ''/'' then ''/'' else ''.''
      | c # d \<Rightarrow> c # d)"

definition posix_join :: "string \<Rightarrow> string \<Rightarrow> string" where
  "posix_join d f = (if d = ''/'' then d @ f else d @ ''/'' @ f)"

definition posix_basename :: "string \<Rightarrow> string" where
  "posix_basename p = rev (takeWhile (\<lambda>c. c \<noteq> CHR ''/'') (rev p))"

definition example_host :: "string \<Rightarrow> string option \<Rightarrow> string list \<Rightarrow> string option \<Rightarrow> host" where
  "example_host os shell files active =
     \<lparr>config_taskShell = shell, platform = os, fs_exists = (\<lambda>f. f \<in> set files),
      path_root = posix_root, path_dirname = posix_dirname, path_join = posix_join,
      path_basename = posix_basename, workspace_rootPath = Some ''/w'',
      activeTextEditor_fileName = active\<rparr>"

section \<open>Notions used in the statements\<close>

text \<open>\<open>leads r st x\<close>: the match of \<open>r\<close> from the state \<open>st\<close> that the matcher
  prefers ends in the state \<open>x\<close>.\<close>

definition leads :: "regex \<Rightarrow> mstate \<Rightarrow> mstate \<Rightarrow> bool" where
  "leads r st x = (\<exists>xs. matches r st = x # xs)"

text \<open>The two ways a path can start for the four patterns: a slash, or a
  letter and a colon.\<close>

fun is_path_start :: "string \<Rightarrow> bool" where
  "is_path_start [c] = (c = CHR ''/'')"
| "is_path_start [d, c] = (cs_mem letter d \<and> c = CHR '':'')"
| "is_path_start _ = False"

text \<open>A decimal number: one digit or more. A text with no line terminator.\<close>

definition decimal :: "string \<Rightarrow> bool" where
  "decimal ds = (ds \<noteq> [] \<and> (\<forall>c\<in>set ds. cs_mem digit c))"

definition one_line :: "string \<Rightarrow> bool" where
  "one_line s = (\<forall>c\<in>set s. cs_mem Any c)"

text \<open>A line that one of the four patterns matches.\<close>

definition matches_pattern :: "string \<Rightarrow> bool" where
  "matches_pattern line =
     (js_match re_range line \<noteq> None \<or> js_match re_locat line \<noteq> None \<or>
      js_match re_link line \<noteq> None \<or> js_match re_other line \<noteq> None)"



text \<open>
  The range pattern and the position pattern after their path group:
  \<open>re_range\<close> is \<open>Bol\<close>, the path group and \<open>range_tail\<close>, and \<open>re_locat\<close> is
  \<open>Bol\<close>, the path group and \<open>locat_tail\<close> (lemmas \<open>re_range_split\<close> and
  \<open>re_locat_split\<close>).
\<close>

definition range_tail :: regex where
  "range_tail =
     Cat (lit '' from '') (Cat (Group 2 (Plus digit)) (Cat (lit '':'') (Cat (Group 3 (Plus digit))
       (Cat (lit '' to '') (Cat (Group 4 (Plus digit)) (Cat (lit '':'') (Cat (Group 5 (Plus digit))
       (Cat (lit '' '') (Cat (Group 6 sev_token) (Cat (lit '': '') (Group 7 (Star Any))))))))))))"

definition locat_tail :: regex where
  "locat_tail =
     Cat (lit '' at '') (Cat (Group 2 (Plus digit)) (Cat (lit '':'') (Cat (Group 3 (Plus digit))
       (Cat (lit '' '') (Cat (Group 4 sev_token) (Cat (lit '': '') (Group 5 (Star Any))))))))"

text \<open>
  The texts that start as these two parts ask: \<^verbatim>\<open> from \<close>, two decimal numbers
  with a colon between, \<^verbatim>\<open> to \<close>, two more, a space, a severity token, a colon
  and a space, then anything; and the same with \<^verbatim>\<open> at \<close> and two numbers.
\<close>

definition range_tail_form :: "string \<Rightarrow> bool" where
  "range_tail_form t =
     (\<exists>l1 c1 l2 c2 sev r. decimal l1 \<and> decimal c1 \<and> decimal l2 \<and> decimal c2 \<and>
        sev \<in> {''error'', ''warning'', ''info''} \<and>
        t = '' from '' @ l1 @ '':'' @ c1 @ '' to '' @ l2 @ '':'' @ c2 @ '' '' @ sev @ '': '' @ r)"

definition point_tail_form :: "string \<Rightarrow> bool" where
  "point_tail_form t =
     (\<exists>l c sev r. decimal l \<and> decimal c \<and> sev \<in> {''error'', ''warning'', ''info''} \<and>
        t = '' at '' @ l @ '':'' @ c @ '' '' @ sev @ '': '' @ r)"

text \<open>
  A text holds the range pattern (the position pattern) again when it is a
  text with no line terminator, then \<^verbatim>\<open>.alan\<close>, then a text of the form above.
  After a path start this is exactly when the pattern matches (lemmas
  \<open>range_again_iff\<close> and \<open>point_again_iff\<close>).
\<close>

definition range_again :: "string \<Rightarrow> bool" where
  "range_again s = (\<exists>a t. s = a @ ''.alan'' @ t \<and> one_line a \<and> range_tail_form t)"

definition point_again :: "string \<Rightarrow> bool" where
  "point_again s = (\<exists>a t. s = a @ ''.alan'' @ t \<and> one_line a \<and> point_tail_form t)"

section \<open>The matcher on literals and single characters\<close>

lemma matches_lit:
  "matches (lit u) (i, s, g) = (if prefix u s then [(i + length u, drop (length u) s, g)] else [])"
proof (induction u arbitrary: i s)
  case Nil
  show ?case by simp
next
  case (Cons a u)
  show ?case
  proof (cases s)
    case Nil
    then show ?thesis by simp
  next
    case (Cons c t)
    then show ?thesis using Cons.IH [of "Suc i" t] by simp
  qed
qed

lemma matches_lit_Cat:
  "matches (Cat (lit u) r) (i, s, g) =
     (if prefix u s then matches r (i + length u, drop (length u) s, g) else [])"
  by (simp add: matches_lit)

lemma replace_all_char:
  "replace_all (Sym (One a)) [TLit u] i s = concat (map (\<lambda>c. if c = a then u else [c]) s)"
  by (induction s arbitrary: i) simp_all

section \<open>The preferred match\<close>

lemma leads_Cat: "leads a st x \<Longrightarrow> leads b x y \<Longrightarrow> leads (Cat a b) st y"
  by (auto simp: leads_def)

lemma leads_Cat_skip:
  assumes "matches a st = us @ x # vs" and "\<forall>u\<in>set us. matches b u = []" and "leads b x y"
  shows "leads (Cat a b) st y"
proof -
  have e: "concat (map (matches b) us) = []" using assms(2) by (induction us) auto
  from assms(3) obtain ys where "matches b x = y # ys" by (auto simp: leads_def)
  then show ?thesis by (simp add: leads_def assms(1) e)
qed

lemma none_Cat: "\<forall>u\<in>set (matches a st). matches b u = [] \<Longrightarrow> matches (Cat a b) st = []"
  by (induction "matches a st" arbitrary: st) auto

lemma leads_Alt1: "leads a st x \<Longrightarrow> leads (Alt a b) st x"
  by (auto simp: leads_def)

lemma leads_Alt2: "matches a st = [] \<Longrightarrow> leads b st x \<Longrightarrow> leads (Alt a b) st x"
  by (auto simp: leads_def)

lemma leads_lit: "leads (lit u) (i, u @ t, g) (i + length u, t, g)"
  by (simp add: leads_def matches_lit)

lemma leads_Group:
  "leads r (i, s, g) (j, t, h) \<Longrightarrow> leads (Group n r) (i, s, g) (j, t, h(n \<mapsto> take (j - i) s))"
  by (auto simp: leads_def)

lemma star_run_longest:
  "\<forall>c\<in>set ds. cs_mem cs c \<Longrightarrow> t = [] \<or> \<not> cs_mem cs (hd t) \<Longrightarrow>
   \<exists>xs. star_run cs i (ds @ t) = (i + length ds, t) # xs"
proof (induction ds arbitrary: i)
  case Nil
  then show ?case by (cases t) auto
next
  case (Cons c ds)
  from Cons.IH [of "Suc i"] Cons.prems obtain xs where
    "star_run cs (Suc i) (ds @ t) = (Suc i + length ds, t) # xs" by auto
  with Cons.prems show ?case by simp
qed

lemma leads_Star:
  "\<forall>c\<in>set ds. cs_mem cs c \<Longrightarrow> t = [] \<or> \<not> cs_mem cs (hd t) \<Longrightarrow>
   leads (Star cs) (i, ds @ t, g) (i + length ds, t, g)"
  using star_run_longest [of ds cs t i] by (auto simp: leads_def)

lemma leads_Plus:
  assumes "ds \<noteq> []" and "\<forall>c\<in>set ds. cs_mem cs c" and "t = [] \<or> \<not> cs_mem cs (hd t)"
  shows "leads (Plus cs) (i, ds @ t, g) (i + length ds, t, g)"
proof -
  from assms(1) obtain c es where ds: "ds = c # es" by (cases ds) auto
  with assms(2) have c: "cs_mem cs c" and es: "\<forall>c\<in>set es. cs_mem cs c" by auto
  from star_run_longest [OF es assms(3), of "Suc i"] obtain xs where
    "star_run cs (Suc i) (es @ t) = (Suc i + length es, t) # xs" by blast
  with c show ?thesis by (simp add: leads_def ds)
qed

lemma leads_Star_line:
  "leads (Star Any) (i, s, g)
     (i + length (takeWhile (cs_mem Any) s), dropWhile (cs_mem Any) s, g)"
proof -
  have "leads (Star Any) (i, takeWhile (cs_mem Any) s @ dropWhile (cs_mem Any) s, g)
     (i + length (takeWhile (cs_mem Any) s), dropWhile (cs_mem Any) s, g)"
  proof (rule leads_Star)
    show "\<forall>c\<in>set (takeWhile (cs_mem Any) s). cs_mem Any c"
      by (auto dest: set_takeWhileD)
    show "dropWhile (cs_mem Any) s = [] \<or> \<not> cs_mem Any (hd (dropWhile (cs_mem Any) s))"
      using hd_dropWhile [of "cs_mem Any" s] by blast
  qed
  then show ?thesis by simp
qed

lemma leads_sev_token:
  assumes "sev \<in> {''error'', ''warning'', ''info''}"
  shows "leads sev_token (i, sev @ t, g) (i + length sev, t, g)"
proof -
  have e: "leads sev_token (i, ''error'' @ t, g) (i + length ''error'', t, g)"
    unfolding sev_token_def by (rule leads_Alt1) (rule leads_lit)
  have w: "leads sev_token (i, ''warning'' @ t, g) (i + length ''warning'', t, g)"
    unfolding sev_token_def
    by (rule leads_Alt2, simp add: matches_lit, rule leads_Alt1, rule leads_lit)
  have n: "leads sev_token (i, ''info'' @ t, g) (i + length ''info'', t, g)"
    unfolding sev_token_def
    by (rule leads_Alt2, simp add: matches_lit, rule leads_Alt2, simp add: matches_lit, rule leads_lit)
  from assms e w n show ?thesis by auto
qed

lemma star_cat_Nil: "matches (Cat (Star cs) r) (i, [], g) = matches r (i, [], g)"
  by simp

lemma star_cat_Cons:
  "matches (Cat (Star cs) r) (i, c # s, g) =
     (if cs_mem cs c then matches (Cat (Star cs) r) (Suc i, s, g) else []) @ matches r (i, c # s, g)"
  by simp

lemma star_cat_skip:
  "\<forall>c\<in>set m. cs_mem cs c \<Longrightarrow>
   \<exists>vs. matches (Cat (Star cs) r) (i, m @ s, g) = matches (Cat (Star cs) r) (i + length m, s, g) @ vs"
proof (induction m arbitrary: i)
  case Nil
  show ?case by simp
next
  case (Cons c m)
  from Cons.IH [of "Suc i"] Cons.prems obtain vs where
    "matches (Cat (Star cs) r) (Suc i, m @ s, g) = matches (Cat (Star cs) r) (Suc i + length m, s, g) @ vs"
    by auto
  with Cons.prems show ?case by (simp only: append_Cons star_cat_Cons) simp
qed

lemma leads_Group_Plus:
  assumes "ds \<noteq> []" and "\<forall>c\<in>set ds. cs_mem cs c" and "t = [] \<or> \<not> cs_mem cs (hd t)"
  shows "leads (Group n (Plus cs)) (i, ds @ t, g) (i + length ds, t, g(n \<mapsto> ds))"
  using leads_Group [OF leads_Plus [OF assms], of n i g] by simp

lemma leads_Group_sev:
  assumes "sev \<in> {''error'', ''warning'', ''info''}"
  shows "leads (Group n sev_token) (i, sev @ t, g) (i + length sev, t, g(n \<mapsto> sev))"
  using leads_Group [OF leads_sev_token [OF assms], of n i t g] by simp

lemma leads_Group_Star_line:
  "leads (Group n (Star Any)) (i, s, g)
     (i + length (takeWhile (cs_mem Any) s), dropWhile (cs_mem Any) s, g(n \<mapsto> takeWhile (cs_mem Any) s))"
  using leads_Group [OF leads_Star_line, of n i s g] by (simp add: takeWhile_eq_take [symmetric])

section \<open>Anchored patterns and the path group\<close>

lemma search_Bol_later: "0 < i \<Longrightarrow> search (Cat Bol r) i s = None"
  by (induction s arbitrary: i) simp_all

lemma js_match_anchored:
  "js_match (Cat Bol r) s =
     (case matches r (0, s, Map.empty) of [] \<Rightarrow> None | (j, t, g) # _ \<Rightarrow> Some (g(0 \<mapsto> take j s)))"
  by (cases s) (auto simp: js_match_def search_Bol_later split: list.splits)

lemma js_match_leads:
  "leads r (0, s, Map.empty) (j, t, g) \<Longrightarrow> js_match (Cat Bol r) s = Some (g(0 \<mapsto> take j s))"
  by (auto simp: js_match_anchored leads_def)

lemma js_match_none:
  "matches r (0, s, Map.empty) = [] \<Longrightarrow> js_match (Cat Bol r) s = None"
  by (simp add: js_match_anchored)

lemma matches_path_start:
  "is_path_start p \<Longrightarrow> matches path_start (i, p @ s, g) = [(i + length p, s, g)]"
proof (induction p rule: is_path_start.induct)
  case (1 c)
  then show ?case by (simp add: path_start_def letter_def)
next
  case (2 d c)
  then show ?case by (auto simp: path_start_def letter_def)
qed simp_all

lemma matches_Cat_mem:
  "z \<in> set (matches (Cat a b) st) \<longleftrightarrow> (\<exists>y\<in>set (matches a st). z \<in> set (matches b y))"
  by simp

lemma matches_Group_mem:
  "(j, t, h') \<in> set (matches (Group n r) (i, s, g)) \<Longrightarrow> \<exists>h. (j, t, h) \<in> set (matches r (i, s, g))"
  by auto

lemma star_run_sound:
  "(j, t) \<in> set (star_run cs i s) \<Longrightarrow> \<exists>ds. s = ds @ t \<and> (\<forall>c\<in>set ds. cs_mem cs c)"
proof (induction s arbitrary: i)
  case Nil
  then show ?case by simp
next
  case (Cons c s)
  from Cons.prems have "(cs_mem cs c \<and> (j, t) \<in> set (star_run cs (Suc i) s)) \<or> t = c # s"
    by (auto split: if_splits)
  then show ?case
  proof
    assume a: "cs_mem cs c \<and> (j, t) \<in> set (star_run cs (Suc i) s)"
    with Cons.IH [of "Suc i"] obtain ds where "s = ds @ t" "\<forall>c\<in>set ds. cs_mem cs c" by blast
    with a have "c # s = (c # ds) @ t \<and> (\<forall>x\<in>set (c # ds). cs_mem cs x)" by simp
    then show ?thesis by (rule exI [of _ "c # ds"])
  next
    assume "t = c # s"
    then have "c # s = [] @ t \<and> (\<forall>x\<in>set []. cs_mem cs x)" by simp
    then show ?thesis by (rule exI [of _ "[]"])
  qed
qed

lemma star_cat_lit_run:
  assumes "(j, t, h) \<in> set (matches (Cat (Star cs) (lit u)) (i, s, g))"
  shows "\<exists>a. s = a @ u @ t \<and> (\<forall>c\<in>set a. cs_mem cs c)"
proof -
  from assms obtain y where y: "y \<in> set (matches (Star cs) (i, s, g))"
    and m: "(j, t, h) \<in> set (matches (lit u) y)"
    unfolding matches_Cat_mem by (rule bexE)
  from y obtain j' t' where r: "(j', t') \<in> set (star_run cs i s)" and yy: "y = (j', t', g)"
    by auto
  from m have "t' = u @ t" by (auto simp: yy matches_lit prefix_def split: if_splits)
  moreover from star_run_sound [OF r] obtain ds where "s = ds @ t'" "\<forall>c\<in>set ds. cs_mem cs c"
    by blast
  ultimately have "s = ds @ u @ t \<and> (\<forall>c\<in>set ds. cs_mem cs c)" by simp
  then show ?thesis by (rule exI)
qed


lemma path_group_first:
  assumes ps: "is_path_start p" and mid: "\<forall>c\<in>set mid. cs_mem Any c"
    and ext: "\<forall>c\<in>set (x # e). cs_mem Any c"
    and later: "\<And>a t j h. e @ rest = a @ (x # e) @ t \<Longrightarrow> \<forall>c\<in>set a. cs_mem Any c \<Longrightarrow>
                  matches r (j, t, h) = []"
    and here: "leads r (length (p @ mid @ x # e), rest, g(1 \<mapsto> p @ mid @ x # e)) y"
  shows "leads (Cat (Group 1 (Cat path_start (Cat (Star Any) (lit (x # e))))) r)
           (0, p @ mid @ x # e @ rest, g) y"
proof -
  let ?SS = "Cat (Star Any) (lit (x # e))"
  let ?line = "p @ mid @ x # e @ rest"
  let ?k = "length p + length mid"
  from star_cat_skip [OF mid, of "lit (x # e)" "length p" "x # e @ rest" g] obtain vs where
    a: "matches ?SS (length p, mid @ x # e @ rest, g) = matches ?SS (?k, x # e @ rest, g) @ vs"
    by blast
  from ext have x: "cs_mem Any x" by simp
  have "matches (lit (x # e)) (?k, (x # e) @ rest, g) = [(?k + length (x # e), rest, g)]"
    by (simp only: matches_lit) simp
  then have b: "matches ?SS (?k, x # e @ rest, g) =
           matches ?SS (Suc ?k, e @ rest, g) @ [(?k + length (x # e), rest, g)]"
    by (simp only: star_cat_Cons x if_True append_Cons)
  let ?U = "matches ?SS (Suc ?k, e @ rest, g)"
  let ?upd = "\<lambda>(j, t, h). (j, t, h(1 \<mapsto> take (j - 0) ?line))"
  have "matches (Cat path_start ?SS) (0, ?line, g) = matches ?SS (length p, mid @ x # e @ rest, g)"
    by (simp only: matches.simps(4) [of path_start] matches_path_start [OF ps]) simp
  then have c: "matches (Cat path_start ?SS) (0, ?line, g) = ?U @ (?k + length (x # e), rest, g) # vs"
    by (simp only: a b) simp
  have d: "matches (Group 1 (Cat path_start ?SS)) (0, ?line, g) =
           map ?upd ?U @ (length (p @ mid @ x # e), rest, g(1 \<mapsto> p @ mid @ x # e)) # map ?upd vs"
    by (simp only: matches.simps(8) c) simp
  have f: "\<forall>v\<in>set (map ?upd ?U). matches r v = []"
  proof
    fix v assume "v \<in> set (map ?upd ?U)"
    then have "v \<in> ?upd ` set ?U" by (simp only: set_map)
    then obtain w where w: "w \<in> set ?U" and vw: "v = ?upd w" by (rule imageE)
    obtain j t h where wj: "w = (j, t, h)" by (cases w) auto
    from vw obtain h' where v: "v = (j, t, h')" by (simp add: wj)
    from w have m: "(j, t, h) \<in> set ?U" by (simp only: wj)
    from star_cat_lit_run [OF m] obtain a where "e @ rest = a @ (x # e) @ t"
      "\<forall>c\<in>set a. cs_mem Any c" by (elim exE conjE)
    then have "matches r (j, t, h') = []" by (rule later)
    then show "matches r v = []" by (simp only: v)
  qed
  show ?thesis by (rule leads_Cat_skip [OF d f here])
qed

lemma path_group_never:
  assumes ps: "is_path_start p"
    and no: "\<And>a t j h. s = a @ ext @ t \<Longrightarrow> \<forall>c\<in>set a. cs_mem Any c \<Longrightarrow> matches r (j, t, h) = []"
  shows "matches (Cat (Group 1 (Cat path_start (Cat (Star Any) (lit ext)))) r) (0, p @ s, g) = []"
proof (rule none_Cat, rule ballI)
  fix st
  assume st: "st \<in> set (matches (Group 1 (Cat path_start (Cat (Star Any) (lit ext)))) (0, p @ s, g))"
  obtain j t h where eq: "st = (j, t, h)" by (cases st) auto
  from st have "(j, t, h) \<in> set (matches (Group 1 (Cat path_start (Cat (Star Any) (lit ext)))) (0, p @ s, g))"
    by (simp only: eq)
  from matches_Group_mem [OF this] obtain h' where
    "(j, t, h') \<in> set (matches (Cat path_start (Cat (Star Any) (lit ext))) (0, p @ s, g))"
    by (rule exE)
  then have "(j, t, h') \<in> set (matches (Cat (Star Any) (lit ext)) (0 + length p, s, g))"
    by (simp only: matches.simps(4) [of path_start] matches_path_start [OF ps]) simp
  from star_cat_lit_run [OF this] obtain a where "s = a @ ext @ t" "\<forall>c\<in>set a. cs_mem Any c"
    by (elim exE conjE)
  then have "matches r (j, t, h) = []" by (rule no)
  then show "matches r st = []" by (simp only: eq)
qed

lemma path_group_greedy:
  assumes ps: "is_path_start p"
    and ext: "\<forall>c\<in>set (x # e). cs_mem Any c"
    and sound: "\<And>j t h. matches r (j, t, h) \<noteq> [] \<Longrightarrow> F t"
    and s0: "s = a0 @ (x # e) @ t0" and a0: "\<forall>c\<in>set a0. cs_mem Any c" and t0: "F t0"
  shows "\<exists>a t. s = a @ (x # e) @ t \<and> (\<forall>c\<in>set a. cs_mem Any c) \<and> F t \<and> length a0 \<le> length a \<and>
           (\<forall>y. leads r (length (p @ a @ x # e), t, g(1 \<mapsto> p @ a @ x # e)) y \<longrightarrow>
                leads (Cat (Group 1 (Cat path_start (Cat (Star Any) (lit (x # e))))) r) (0, p @ s, g) y)"
proof -
  define Q where "Q k = (\<exists>a t. length a = k \<and> s = a @ (x # e) @ t \<and> (\<forall>c\<in>set a. cs_mem Any c) \<and> F t)"
    for k
  have QI: "Q (length a)" if "s = a @ (x # e) @ t" "\<forall>c\<in>set a. cs_mem Any c" "F t" for a t
  proof -
    from that have "length a = length a \<and> s = a @ (x # e) @ t \<and> (\<forall>c\<in>set a. cs_mem Any c) \<and> F t"
      by (intro conjI refl)
    then show ?thesis unfolding Q_def by (intro exI)
  qed
  have q0: "Q (length a0)" by (rule QI [OF s0 a0 t0])
  have bound: "\<forall>k. Q k \<longrightarrow> k < Suc (length s)"
  proof (intro allI impI)
    fix k assume "Q k"
    then obtain a t where "length a = k" "s = a @ (x # e) @ t"
      unfolding Q_def by (elim exE conjE)
    then show "k < Suc (length s)" by simp
  qed
  from ex_has_greatest_nat [where P = Q and f = "\<lambda>k. k", OF q0 bound] obtain k where
    k: "Q k" and mx': "\<forall>n. Q n \<longrightarrow> n \<le> k" by (elim exE conjE)
  note mx = mx' [rule_format]
  from k obtain a t where len: "length a = k" and s: "s = a @ (x # e) @ t"
    and al: "\<forall>c\<in>set a. cs_mem Any c" and ft: "F t" unfolding Q_def by (elim exE conjE)
  have later: "matches r (j, t', h) = []"
    if eq: "e @ t = a' @ (x # e) @ t'" and al': "\<forall>c\<in>set a'. cs_mem Any c" for a' t' j h
  proof (rule ccontr)
    assume "matches r (j, t', h) \<noteq> []"
    then have f: "F t'" by (rule sound)
    from s eq have s': "s = (a @ x # a') @ (x # e) @ t'" by simp
    from ext have "cs_mem Any x" by (simp del: cs_mem.simps)
    with al al' have all: "\<forall>c\<in>set (a @ x # a'). cs_mem Any c"
      by (simp add: ball_Un del: cs_mem.simps)
    from mx [OF QI [OF s' all f]] len show False by simp
  qed
  have lead: "\<forall>y. leads r (length (p @ a @ x # e), t, g(1 \<mapsto> p @ a @ x # e)) y \<longrightarrow>
      leads (Cat (Group 1 (Cat path_start (Cat (Star Any) (lit (x # e))))) r) (0, p @ s, g) y"
  proof (intro allI impI)
    fix y assume here: "leads r (length (p @ a @ x # e), t, g(1 \<mapsto> p @ a @ x # e)) y"
    have "p @ s = p @ a @ x # e @ t" by (simp add: s)
    with path_group_first [OF ps al ext later here]
    show "leads (Cat (Group 1 (Cat path_start (Cat (Star Any) (lit (x # e))))) r) (0, p @ s, g) y"
      by (simp only:)
  qed
  have le: "length a0 \<le> length a" using mx [OF q0] len by simp
  from s al ft le lead have "s = a @ (x # e) @ t \<and> (\<forall>c\<in>set a. cs_mem Any c) \<and> F t \<and>
      length a0 \<le> length a \<and>
      (\<forall>y. leads r (length (p @ a @ x # e), t, g(1 \<mapsto> p @ a @ x # e)) y \<longrightarrow>
           leads (Cat (Group 1 (Cat path_start (Cat (Star Any) (lit (x # e))))) r) (0, p @ s, g) y)"
    by (intro conjI)
  then show ?thesis by (intro exI)
qed

section \<open>The two path conversions\<close>

text \<open>The search for a drive letter finds a letter and a colon, and the
  template \<^verbatim>\<open>$1:\<close> writes them back.\<close>

lemma search_drive:
  "search re_drive i s = Some (k, (j, t, g)) \<Longrightarrow>
   \<exists>p d. s = p @ d # CHR '':'' # t \<and> k = i + length p \<and> j = k + 2 \<and> g 1 = Some [d]"
proof (induction s arbitrary: i)
  case Nil
  then show ?case by (simp add: re_drive_def)
next
  case (Cons c s)
  show ?case
  proof (cases "matches re_drive (i, c # s, Map.empty)")
    case Nil
    with Cons.prems have "search re_drive (Suc i) s = Some (k, (j, t, g))" by simp
    from Cons.IH [OF this] obtain p d where
      "s = p @ d # CHR '':'' # t" "k = Suc i + length p" "j = k + 2" "g 1 = Some [d]" by blast
    then have "c # s = (c # p) @ d # CHR '':'' # t \<and> k = i + length (c # p) \<and> j = k + 2 \<and> g 1 = Some [d]"
      by simp
    then show ?thesis by (intro exI [of _ "c # p"] exI [of _ d])
  next
    case (Cons st sts)
    with Cons.prems have k: "k = i" and st: "st = (j, t, g)" by simp_all
    from Cons st have "c # s = [] @ c # CHR '':'' # t \<and> j = i + 2 \<and> g 1 = Some [c]"
      by (auto simp: re_drive_def split: list.splits if_splits)
    with k show ?thesis by (intro exI [of _ "[]"] exI [of _ c]) simp
  qed
qed

lemma replace_first_drive_same:
  "replace_first re_drive [TGroup 1, TLit '':''] s = s"
proof (cases "search re_drive 0 s")
  case None
  then show ?thesis by (simp add: replace_first_def)
next
  case (Some r)
  obtain k j t g where r: "r = (k, (j, t, g))" by (cases r) auto
  from search_drive [OF Some [unfolded r]] obtain p d where
    "s = p @ d # CHR '':'' # t" "k = 0 + length p" "j = k + 2" "g 1 = Some [d]" by blast
  then show ?thesis using Some r by (simp add: replace_first_def)
qed

lemma search_drive_here:
  assumes "cs_mem letter d"
  shows "search re_drive 0 (d # CHR '':'' # t) = Some (0, (2, t, [1 \<mapsto> [d]]))"
  using assms by (simp add: re_drive_def)

lemma escape_no_space:
  "CHR '' '' \<notin> set s \<Longrightarrow>
   concat (map (\<lambda>c. if c = CHR '' '' then [BSL, CHR '' ''] else [c]) s) = s"
  by (induction s) auto

lemma replace_all_backslash:
  "replace_all re_backslash [TLit ''/''] i s = map (\<lambda>c. if c = BSL then CHR ''/'' else c) s"
  unfolding re_backslash_def replace_all_char by (induction s) simp_all

lemma replace_all_space:
  "replace_all re_space [TLit [BSL, CHR '' '']] i s =
     concat (map (\<lambda>c. if c = CHR '' '' then [BSL, CHR '' ''] else [c]) s)"
  unfolding re_space_def by (rule replace_all_char)

lemma replace_all_mnt_none:
  "\<not> sublist ''/mnt/'' s \<Longrightarrow> replace_all re_mnt tp i s = s"
proof (induction s arbitrary: i)
  case Nil
  show ?case by (simp add: re_mnt_def matches_lit_Cat)
next
  case (Cons c s)
  from Cons.prems have np: "\<not> prefix ''/mnt/'' (c # s)" and ns: "\<not> sublist ''/mnt/'' s"
    by (simp_all add: sublist_Cons_right)
  from np have "matches re_mnt (i, c # s, Map.empty) = []"
    by (simp only: re_mnt_def matches_lit_Cat if_False)
  then show ?case using Cons.IH [OF ns] by simp
qed

lemma replace_all_mnt_here:
  assumes "cs_mem (Range CHR ''a'' CHR ''z'') d"
  shows "replace_all re_mnt [TGroup 1, TLit '':/''] 0 (''/mnt/'' @ d # CHR ''/'' # r) =
         d # '':/'' @ replace_all re_mnt [TGroup 1, TLit '':/''] 7 r"
proof -
  have "matches re_mnt (0, ''/mnt/'' @ d # CHR ''/'' # r, Map.empty) = [(7, r, [1 \<mapsto> [d]])]"
    using assms unfolding re_mnt_def matches_lit_Cat by simp
  then show ?thesis by simp
qed

text \<open>
  Claim C9. For a shell that is not the bash of WSL, \<open>pathToBashPath\<close> only
  writes a slash for every backslash and a backslash before every space; a
  drive letter and its colon stay as they are. \<open>bashPathsToWinPaths\<close> returns
  its input.
\<close>

theorem pathToBashPath_non_wsl:
  assumes "shell \<noteq> Some wsl_bash"
  shows "pathToBashPath path shell =
           concat (map (\<lambda>c. if c = BSL then ''/''
                             else if c = CHR '' '' then [BSL, CHR '' ''] else [c]) path) \<and>
         (cs_mem letter d \<longrightarrow>
            pathToBashPath (d # CHR '':'' # rest) shell = d # CHR '':'' # pathToBashPath rest shell) \<and>
         bashPathsToWinPaths string shell = string"
proof -
  have nw: "\<not> isWsl shell" using assms by (simp add: isWsl_def)
  have conv: "pathToBashPath p shell =
           concat (map (\<lambda>c. if c = BSL then ''/''
                             else if c = CHR '' '' then [BSL, CHR '' ''] else [c]) p)" for p
  proof -
    have "pathToBashPath p shell =
        replace_all re_space [TLit [BSL, CHR '' '']] 0 (replace_all re_backslash [TLit ''/''] 0 p)"
      by (simp only: pathToBashPath_def nw if_False replace_first_drive_same)
    also have "\<dots> = concat (map (\<lambda>c. if c = CHR '' '' then [BSL, CHR '' ''] else [c])
                         (map (\<lambda>c. if c = BSL then CHR ''/'' else c) p))"
      by (simp only: replace_all_backslash replace_all_space)
    also have "\<dots> = concat (map (\<lambda>c. if c = BSL then ''/''
                             else if c = CHR '' '' then [BSL, CHR '' ''] else [c]) p)"
      by (induction p) simp_all
    finally show ?thesis .
  qed
  have "cs_mem letter d \<Longrightarrow> d \<noteq> BSL \<and> d \<noteq> CHR '' ''"
    by (auto simp: letter_def)
  then show ?thesis using nw
    by (simp add: conv bashPathsToWinPaths_def)
qed

theorem pathToBashPath_non_wsl_witness:
  "Some git_bash_x64 \<noteq> Some wsl_bash \<and> cs_mem letter CHR ''C'' \<and>
   pathToBashPath (''C:'' @ [BSL] @ ''my dir'') (Some git_bash_x64) = ''C:/my'' @ [BSL] @ '' dir'' \<and>
   bashPathsToWinPaths ''/mnt/c/x'' (Some git_bash_x64) = ''/mnt/c/x''"
proof -
  have a: "Some git_bash_x64 \<noteq> Some wsl_bash" by (simp add: git_bash_x64_def wsl_bash_def)
  have b: "cs_mem letter CHR ''C''" by (simp add: letter_def)
  from pathToBashPath_non_wsl [OF a, of "''C:'' @ [BSL] @ ''my dir''" "CHR ''C''" "[BSL] @ ''my dir''" "''/mnt/c/x''"] a b
  show ?thesis by simp
qed

text \<open>
  Claim C3, as the code has it. For a path that starts with a lower-case drive
  letter, a colon and a backslash, has no space, and whose remainder does not
  read \<^verbatim>\<open>/mnt/\<close> anywhere once its backslashes are slashes, the forward
  conversion for WSL gives \<^verbatim>\<open>/mnt/\<close>, the letter and the remainder with
  slashes, and the inverse conversion of that gives the path with a slash for
  every backslash. That is not the original path: the backslashes are not
  restored.
\<close>

theorem wsl_round_trip:
  assumes "cs_mem (Range CHR ''a'' CHR ''z'') d"
    and "CHR '' '' \<notin> set rest"
    and "\<not> sublist ''/mnt/'' (slashes rest)"
  shows "pathToBashPath (d # CHR '':'' # BSL # rest) (Some wsl_bash) = ''/mnt/'' @ d # CHR ''/'' # slashes rest \<and>
         bashPathsToWinPaths (pathToBashPath (d # CHR '':'' # BSL # rest) (Some wsl_bash)) (Some wsl_bash) =
           slashes (d # CHR '':'' # BSL # rest) \<and>
         bashPathsToWinPaths (pathToBashPath (d # CHR '':'' # BSL # rest) (Some wsl_bash)) (Some wsl_bash) \<noteq>
           d # CHR '':'' # BSL # rest"
proof -
  have l: "cs_mem letter d" using assms(1) by (simp add: letter_def)
  have d: "d \<noteq> BSL" "d \<noteq> CHR '' ''" using assms(1) by auto
  have "replace_first re_drive [TLit ''/mnt/'', TGroup 1] (d # CHR '':'' # BSL # rest) = ''/mnt/'' @ d # BSL # rest"
    by (simp only: replace_first_def search_drive_here [OF l]) simp
  then have "pathToBashPath (d # CHR '':'' # BSL # rest) (Some wsl_bash) =
      replace_all re_space [TLit [BSL, CHR '' '']] 0 (replace_all re_backslash [TLit ''/''] 0 (''/mnt/'' @ d # BSL # rest))"
    by (simp only: pathToBashPath_def isWsl_def refl if_True)
  also have "\<dots> = concat (map (\<lambda>c. if c = CHR '' '' then [BSL, CHR '' ''] else [c]) (''/mnt/'' @ d # CHR ''/'' # slashes rest))"
    unfolding replace_all_backslash replace_all_space using d by (simp add: slashes_def)
  also have "\<dots> = ''/mnt/'' @ d # CHR ''/'' # slashes rest"
  proof -
    have "CHR '' '' \<notin> set (slashes rest)" using assms(2) by (auto simp: slashes_def)
    then have "concat (map (\<lambda>c. if c = CHR '' '' then [BSL, CHR '' ''] else [c]) (slashes rest)) = slashes rest"
      by (rule escape_no_space)
    then show ?thesis using d by simp
  qed
  finally have fwd: "pathToBashPath (d # CHR '':'' # BSL # rest) (Some wsl_bash) = ''/mnt/'' @ d # CHR ''/'' # slashes rest" .
  have "bashPathsToWinPaths (''/mnt/'' @ d # CHR ''/'' # slashes rest) (Some wsl_bash) =
       d # '':/'' @ slashes rest"
    unfolding bashPathsToWinPaths_def isWsl_def
    by (simp only: refl if_True replace_all_mnt_here [OF assms(1)] replace_all_mnt_none [OF assms(3)])
  then have bwd: "bashPathsToWinPaths (pathToBashPath (d # CHR '':'' # BSL # rest) (Some wsl_bash)) (Some wsl_bash) =
           slashes (d # CHR '':'' # BSL # rest)"
    using d by (simp add: fwd slashes_def)
  have "slashes (d # CHR '':'' # BSL # rest) \<noteq> d # CHR '':'' # BSL # rest"
    by (simp add: slashes_def)
  with fwd bwd show ?thesis by simp
qed

theorem wsl_round_trip_witness:
  "cs_mem (Range CHR ''a'' CHR ''z'') CHR ''c'' \<and> CHR '' '' \<notin> set (''Users'' @ [BSL] @ ''x'') \<and>
   \<not> sublist ''/mnt/'' (slashes (''Users'' @ [BSL] @ ''x'')) \<and>
   pathToBashPath (''c:'' @ [BSL] @ ''Users'' @ [BSL] @ ''x'') (Some wsl_bash) = ''/mnt/c/Users/x'' \<and>
   bashPathsToWinPaths (pathToBashPath (''c:'' @ [BSL] @ ''Users'' @ [BSL] @ ''x'') (Some wsl_bash)) (Some wsl_bash) = ''c:/Users/x''"
proof -
  have a: "cs_mem (Range CHR ''a'' CHR ''z'') CHR ''c''" by simp
  have b: "CHR '' '' \<notin> set (''Users'' @ [BSL] @ ''x'')" by simp
  have c: "\<not> sublist ''/mnt/'' (slashes (''Users'' @ [BSL] @ ''x''))"
    by (simp add: slashes_def sublist_Cons_right)
  note t = wsl_round_trip [OF a b c]
  have f: "pathToBashPath (''c:'' @ [BSL] @ ''Users'' @ [BSL] @ ''x'') (Some wsl_bash) = ''/mnt/c/Users/x''"
    using t [THEN conjunct1] by (simp add: slashes_def)
  have g: "bashPathsToWinPaths (pathToBashPath (''c:'' @ [BSL] @ ''Users'' @ [BSL] @ ''x'') (Some wsl_bash))
             (Some wsl_bash) = ''c:/Users/x''"
    using t [THEN conjunct2, THEN conjunct1] by (simp add: slashes_def)
  from a b c f g show ?thesis by (intro conjI)
qed

text \<open>
  The claim as it is written fails on \<^verbatim>\<open>c:\x\<close>, which comes back as
  \<^verbatim>\<open>c:/x\<close>. With an upper-case drive letter the inverse conversion changes
  nothing, since its pattern has lower-case letters only.
\<close>

theorem wsl_round_trip_not_exact:
  "bashPathsToWinPaths (pathToBashPath (''c:'' @ [BSL] @ ''x'') (Some wsl_bash)) (Some wsl_bash) = ''c:/x'' \<and>
   ''c:/x'' \<noteq> ''c:'' @ [BSL] @ ''x'' \<and>
   bashPathsToWinPaths (pathToBashPath (''C:'' @ [BSL] @ ''x'') (Some wsl_bash)) (Some wsl_bash) = ''/mnt/C/x''"
  by code_simp

section \<open>The example host\<close>

lemma example_host_fields [simp]:
  "fs_exists (example_host os sh files act) f = (f \<in> set files)"
  "path_root (example_host os sh files act) = posix_root"
  "path_dirname (example_host os sh files act) = posix_dirname"
  "path_join (example_host os sh files act) = posix_join"
  "path_basename (example_host os sh files act) = posix_basename"
  "platform (example_host os sh files act) = os"
  "config_taskShell (example_host os sh files act) = sh"
  "workspace_rootPath (example_host os sh files act) = Some ''/w''"
  "activeTextEditor_fileName (example_host os sh files act) = act"
  by (simp_all add: example_host_def)

lemma posix_dirname_examples:
  "posix_dirname ''/p/a/b/c'' = ''/p/a/b''"
  "posix_dirname ''/p/a/b'' = ''/p/a''"
  "posix_dirname ''/p/a'' = ''/p''"
  "posix_dirname ''/a/b/c'' = ''/a/b''"
  "posix_dirname ''/a/b'' = ''/a''"
  "posix_dirname ''/a'' = ''/''"
  by (simp_all add: posix_dirname_def posix_root_def)

section \<open>Severity tokens\<close>

text \<open>
  Claim C6. \<open>getSeverity\<close> is defined on every string: \<^verbatim>\<open>error\<close> gives Error,
  \<^verbatim>\<open>warning\<close> gives Warning, and every other string, \<^verbatim>\<open>info\<close> among them,
  gives Information.
\<close>

theorem getSeverity_total:
  "getSeverity ''error'' = Error \<and> getSeverity ''warning'' = Warning \<and>
   getSeverity ''info'' = Information \<and>
   (\<forall>s. s \<noteq> ''error'' \<longrightarrow> s \<noteq> ''warning'' \<longrightarrow> getSeverity s = Information)"
  by (simp add: getSeverity_def)

theorem getSeverity_total_witness:
  "''hint'' \<noteq> ''error'' \<and> ''hint'' \<noteq> ''warning'' \<and> getSeverity ''hint'' = Information"
proof -
  have a: "''hint'' \<noteq> ''error''" and b: "''hint'' \<noteq> ''warning''" by simp_all
  have "''hint'' \<noteq> ''error'' \<longrightarrow> ''hint'' \<noteq> ''warning'' \<longrightarrow> getSeverity ''hint'' = Information"
    using getSeverity_total by (elim conjE allE)
  with a b show ?thesis by (intro conjI) (elim impE, assumption+)+
qed

section \<open>The shell resolver\<close>

text \<open>
  Claim C8. A configured shell that is not empty is returned as it is, with no
  existence test. Without one, on \<^verbatim>\<open>win32\<close> the launcher of WSL and the two
  bash binaries of Git are tested in this order, each only when the ones
  before it do not exist, and the shell of the first that exists is returned;
  when none exists an error message is shown and the result is undefined. On
  every other platform the result is \<^verbatim>\<open>/bin/bash\<close>, with no existence test.
\<close>

theorem resolveBashShell_cases:
  "(\<forall>s. config_taskShell h = Some s \<and> s \<noteq> [] \<longrightarrow>
      resolveBashShell h = \<lparr>returned = Some s, probed = [], errors_shown = []\<rparr>) \<and>
   ((config_taskShell h = None \<or> config_taskShell h = Some []) \<and> platform h = ''win32'' \<longrightarrow>
      returned (resolveBashShell h) =
        (if fs_exists h wsl then Some wsl_bash
         else if fs_exists h git_bash_x64 then Some git_bash_x64
         else if fs_exists h git_bash_x32 then Some git_bash_x32
         else None) \<and>
      probed (resolveBashShell h) =
        (if fs_exists h wsl then [wsl]
         else if fs_exists h git_bash_x64 then [wsl, git_bash_x64]
         else [wsl, git_bash_x64, git_bash_x32]) \<and>
      errors_shown (resolveBashShell h) =
        (if fs_exists h wsl \<or> fs_exists h git_bash_x64 \<or> fs_exists h git_bash_x32 then []
         else [no_shell_error])) \<and>
   ((config_taskShell h = None \<or> config_taskShell h = Some []) \<and> platform h \<noteq> ''win32'' \<longrightarrow>
      resolveBashShell h = \<lparr>returned = Some ''/bin/bash'', probed = [], errors_shown = []\<rparr>)"
  by (auto simp: resolveBashShell_def probe_win32_def linux_osx_bash_def
      split: option.splits list.splits)

theorem resolveBashShell_cases_witness:
  "resolveBashShell (example_host ''win32'' (Some ''/opt/sh'') [] None) =
     \<lparr>returned = Some ''/opt/sh'', probed = [], errors_shown = []\<rparr> \<and>
   returned (resolveBashShell (example_host ''win32'' None [git_bash_x32, git_bash_x64] None)) =
     Some git_bash_x64 \<and>
   probed (resolveBashShell (example_host ''win32'' None [git_bash_x32, git_bash_x64] None)) =
     [wsl, git_bash_x64] \<and>
   errors_shown (resolveBashShell (example_host ''win32'' None [git_bash_x32, git_bash_x64] None)) = [] \<and>
   returned (resolveBashShell (example_host ''win32'' (Some []) [] None)) = None \<and>
   errors_shown (resolveBashShell (example_host ''win32'' (Some []) [] None)) = [no_shell_error] \<and>
   resolveBashShell (example_host ''darwin'' None [] None) =
     \<lparr>returned = Some ''/bin/bash'', probed = [], errors_shown = []\<rparr>"
  using resolveBashShell_cases [of "example_host ''win32'' (Some ''/opt/sh'') [] None"]
    resolveBashShell_cases [of "example_host ''win32'' None [git_bash_x32, git_bash_x64] None"]
    resolveBashShell_cases [of "example_host ''win32'' (Some []) [] None"]
    resolveBashShell_cases [of "example_host ''darwin'' None [] None"]
  by (simp add: wsl_def git_bash_x64_def git_bash_x32_def)

section \<open>The project-root locator\<close>

text \<open>As long as the directories passed are not the root and hold no marker,
  the search is the search from the parent.\<close>

lemma find_dir_walk:
  "\<forall>i<k. (path_dirname h ^^ i) d \<noteq> root \<and>
          \<not> fs_exists h (path_join h ((path_dirname h ^^ i) d) ''alan'')
   \<Longrightarrow> find_dir h root d = find_dir h root ((path_dirname h ^^ k) d)"
proof (induction k arbitrary: d)
  case 0
  show ?case by simp
next
  case (Suc k)
  have "0 < Suc k" by simp
  with Suc.prems
  have "(path_dirname h ^^ 0) d \<noteq> root \<and>
        \<not> fs_exists h (path_join h ((path_dirname h ^^ 0) d) ''alan'')"
    by blast
  then have here: "d \<noteq> root" "\<not> fs_exists h (path_join h d ''alan'')"
    by simp_all
  have up: "\<forall>i<k. (path_dirname h ^^ i) (path_dirname h d) \<noteq> root \<and>
      \<not> fs_exists h (path_join h ((path_dirname h ^^ i) (path_dirname h d)) ''alan'')"
  proof (intro allI impI)
    fix i assume "i < k"
    then have "Suc i < Suc k" by simp
    with Suc.prems have "(path_dirname h ^^ Suc i) d \<noteq> root \<and>
      \<not> fs_exists h (path_join h ((path_dirname h ^^ Suc i) d) ''alan'')" by blast
    then show "(path_dirname h ^^ i) (path_dirname h d) \<noteq> root \<and>
      \<not> fs_exists h (path_join h ((path_dirname h ^^ i) (path_dirname h d)) ''alan'')"
      by (simp add: funpow_Suc_right del: funpow.simps)
  qed
  have "find_dir h root d = find_dir h root (path_dirname h d)"
    using here by (subst find_dir.simps) simp
  also have "\<dots> = find_dir h root ((path_dirname h ^^ k) (path_dirname h d))"
    by (rule Suc.IH [OF up])
  finally show ?case by (simp only: funpow_Suc_right o_apply)
qed

text \<open>
  Claim C4, as the code has it. The directory is compared with the root of the
  starting path before the marker is looked for, so the root itself is never
  searched. When the \<open>k\<close> directories from the start upward are not the root
  and hold no marker, the promise is rejected if the next one is the root
  (whether or not the root holds a marker), and resolved with the next one if
  that is not the root and holds the marker. The promise is settled in both
  cases: the result is not \<open>None\<close>.
\<close>

theorem resolveAlanRoot_walk:
  assumes "\<forall>i<k. (path_dirname h ^^ i) start \<noteq> path_root h start \<and>
             \<not> fs_exists h (path_join h ((path_dirname h ^^ i) start) ''alan'')"
  shows "((path_dirname h ^^ k) start = path_root h start \<longrightarrow>
            resolveAlanRoot h start = Some Rejected) \<and>
         ((path_dirname h ^^ k) start \<noteq> path_root h start \<and>
          fs_exists h (path_join h ((path_dirname h ^^ k) start) ''alan'') \<longrightarrow>
            resolveAlanRoot h start = Some (Resolved ((path_dirname h ^^ k) start)))"
proof -
  have "resolveAlanRoot h start = find_dir h (path_root h start) ((path_dirname h ^^ k) start)"
    unfolding resolveAlanRoot_def by (rule find_dir_walk [OF assms])
  moreover have "(path_dirname h ^^ k) start = path_root h start \<Longrightarrow>
     find_dir h (path_root h start) ((path_dirname h ^^ k) start) = Some Rejected"
    by (subst find_dir.simps) simp
  moreover have "(path_dirname h ^^ k) start \<noteq> path_root h start \<Longrightarrow>
     fs_exists h (path_join h ((path_dirname h ^^ k) start) ''alan'') \<Longrightarrow>
     find_dir h (path_root h start) ((path_dirname h ^^ k) start) =
       Some (Resolved ((path_dirname h ^^ k) start))"
    by (subst find_dir.simps) simp
  ultimately show ?thesis by simp
qed

text \<open>The two examples of the specification: three levels below the
  directory with the marker, and no marker in any ancestor.\<close>

theorem resolveAlanRoot_walk_witness:
  "resolveAlanRoot (example_host ''linux'' None [''/p/alan''] None) ''/p/a/b/c'' =
     Some (Resolved ''/p'') \<and>
   resolveAlanRoot (example_host ''linux'' None [] None) ''/a/b/c'' = Some Rejected"
proof -
  let ?h = "example_host ''linux'' None [''/p/alan''] None"
  let ?e = "example_host ''linux'' None [] None"
  have h1: "\<forall>i<3. (path_dirname ?h ^^ i) ''/p/a/b/c'' \<noteq> path_root ?h ''/p/a/b/c'' \<and>
             \<not> fs_exists ?h (path_join ?h ((path_dirname ?h ^^ i) ''/p/a/b/c'') ''alan'')"
    by (simp add: numeral_3_eq_3 less_Suc_eq posix_dirname_examples posix_root_def posix_join_def)
  have h2: "\<forall>i<3. (path_dirname ?e ^^ i) ''/a/b/c'' \<noteq> path_root ?e ''/a/b/c'' \<and>
             \<not> fs_exists ?e (path_join ?e ((path_dirname ?e ^^ i) ''/a/b/c'') ''alan'')"
    by (simp add: numeral_3_eq_3 less_Suc_eq posix_dirname_examples posix_root_def posix_join_def)
  from resolveAlanRoot_walk [OF h1] resolveAlanRoot_walk [OF h2]
  show ?thesis
    by (simp add: numeral_3_eq_3 posix_dirname_examples posix_root_def posix_join_def)
qed

text \<open>A directory that is its own parent, is not the root and holds no marker
  is searched for ever: the promise is never settled.\<close>

lemma find_dir_never:
  assumes same: "path_dirname h d = d" and nr: "d \<noteq> root"
    and nm: "\<not> fs_exists h (path_join h d ''alan'')"
  shows "find_dir h root d = None"
proof (rule ccontr)
  assume "find_dir h root d \<noteq> None"
  then obtain y where y: "find_dir h root d = Some y" by auto
  have "\<not> (h = h \<and> root = root \<and> d = d)"
  proof (rule find_dir.raw_induct [where P = "\<lambda>h' root' c y. \<not> (h' = h \<and> root' = root \<and> c = d)", OF _ y])
    fix f h' root' c z
    assume ih: "\<And>h' root' c z. f h' root' c = Some z \<Longrightarrow> \<not> (h' = h \<and> root' = root \<and> c = d)"
      and st: "(if c = root' then Some Rejected
           else if \<not> fs_exists h' (path_join h' c ''alan'') then f h' root' (path_dirname h' c)
           else Some (Resolved c)) = Some z"
    show "\<not> (h' = h \<and> root' = root \<and> c = d)"
    proof
      assume e: "h' = h \<and> root' = root \<and> c = d"
      with st nr nm same have "f h root d = Some z" by simp
      from ih [OF this] show False by simp
    qed
  qed
  then show False by simp
qed

text \<open>
  The claim as it is written fails where the directory that holds the marker
  is the root: three levels below \<^verbatim>\<open>/\<close>, with the marker \<^verbatim>\<open>/alan\<close>, the
  promise is rejected. It also fails for a relative starting directory such
  as \<^verbatim>\<open>.\<close> (the directory name of a file with no path): the root of the
  starting path is the empty string, no directory is ever equal to it, and
  with no marker the promise is not rejected but never settled.
\<close>

theorem resolveAlanRoot_marker_in_root:
  "(path_dirname (example_host ''linux'' None [''/alan''] None) ^^ 3) ''/a/b/c'' = ''/'' \<and>
   fs_exists (example_host ''linux'' None [''/alan''] None)
     (path_join (example_host ''linux'' None [''/alan''] None) ''/'' ''alan'') \<and>
   resolveAlanRoot (example_host ''linux'' None [''/alan''] None) ''/a/b/c'' = Some Rejected \<and>
   resolveAlanRoot (example_host ''linux'' None [''/alan''] None) ''/a/b/c'' \<noteq> Some (Resolved ''/'') \<and>
   resolveAlanRoot (example_host ''linux'' None [] None) ''.'' = None"
proof -
  have a: "(path_dirname (example_host ''linux'' None [''/alan''] None) ^^ 3) ''/a/b/c'' = ''/''"
    by code_simp
  have b: "fs_exists (example_host ''linux'' None [''/alan''] None)
     (path_join (example_host ''linux'' None [''/alan''] None) ''/'' ''alan'')"
    by code_simp
  have c: "resolveAlanRoot (example_host ''linux'' None [''/alan''] None) ''/a/b/c'' = Some Rejected"
    by code_simp
  then have d: "resolveAlanRoot (example_host ''linux'' None [''/alan''] None) ''/a/b/c'' \<noteq>
      Some (Resolved ''/'')"
    by simp
  have e: "resolveAlanRoot (example_host ''linux'' None [] None) ''.'' = None"
    unfolding resolveAlanRoot_def
    by (rule find_dir_never) (simp_all add: posix_dirname_def posix_root_def posix_join_def)
  from a b c d e show ?thesis by (intro conjI)
qed

section \<open>The task catalog\<close>

text \<open>
  Claim C7. When the catalog is built (a workspace is open, an editor is
  active and the project root is found), it holds the fetch, build and
  generate-migration tasks, and it holds the package task exactly when the
  base name of the active file is \<^verbatim>\<open>connections.alan\<close>.
\<close>

theorem getTasksList_package:
  assumes "workspace_rootPath h = Some w" and "w \<noteq> []"
    and "activeTextEditor_fileName h = Some active_file_name"
    and "resolveAlanRoot h (path_dirname h active_file_name) = Some (Resolved alan_root)"
  shows "\<exists>c. getTasksList h = Some c \<and>
           {''fetch'', ''build'', ''generate migration''} \<subseteq> definition_task ` set (tasks c) \<and>
           (''package'' \<in> definition_task ` set (tasks c) \<longleftrightarrow>
              path_basename h active_file_name = ''connections.alan'') \<and>
           (package_task \<in> set (tasks c) \<longleftrightarrow>
              path_basename h active_file_name = ''connections.alan'')"
proof -
  from assms(1,2) obtain c cs where w: "workspace_rootPath h = Some (c # cs)"
    by (cases w) auto
  show ?thesis
    by (simp add: getTasksList_def w assms(3,4) Let_def fetch_task_def build_task_def
        migration_task_def package_task_def)
qed

theorem getTasksList_package_witness:
  "(\<exists>c. getTasksList (example_host ''linux'' None [''/p/alan''] (Some ''/p/a/connections.alan'')) = Some c \<and>
        ''package'' \<in> definition_task ` set (tasks c)) \<and>
   (\<exists>c. getTasksList (example_host ''linux'' None [''/p/alan''] (Some ''/p/a/Connections.alan'')) = Some c \<and>
        ''package'' \<notin> definition_task ` set (tasks c) \<and>
        {''fetch'', ''build'', ''generate migration''} \<subseteq> definition_task ` set (tasks c))"
proof -
  let ?h = "example_host ''linux'' None [''/p/alan''] (Some ''/p/a/connections.alan'')"
  let ?k = "example_host ''linux'' None [''/p/alan''] (Some ''/p/a/Connections.alan'')"
  have w: "workspace_rootPath ?h = Some ''/w''" "workspace_rootPath ?k = Some ''/w''" "''/w'' \<noteq> []"
    by simp_all
  have a: "activeTextEditor_fileName ?h = Some ''/p/a/connections.alan''"
    "activeTextEditor_fileName ?k = Some ''/p/a/Connections.alan''" by simp_all
  have r: "resolveAlanRoot ?h (path_dirname ?h ''/p/a/connections.alan'') = Some (Resolved ''/p'')"
    "resolveAlanRoot ?k (path_dirname ?k ''/p/a/Connections.alan'') = Some (Resolved ''/p'')"
    by code_simp+
  have b: "path_basename ?h ''/p/a/connections.alan'' = ''connections.alan''"
    "path_basename ?k ''/p/a/Connections.alan'' \<noteq> ''connections.alan''"
    by (simp_all add: posix_basename_def)
  from getTasksList_package [OF w(1) w(3) a(1) r(1)] getTasksList_package [OF w(2) w(3) a(2) r(2)] b
  show ?thesis by blast
qed

section \<open>The range and the position pattern after the path group\<close>

lemma re_range_split:
  "re_range = Cat Bol (Cat (Group 1 (Cat path_start (Cat (Star Any) (lit ''.alan'')))) range_tail)"
  by (simp only: re_range_def range_tail_def)

lemma re_locat_split:
  "re_locat = Cat Bol (Cat (Group 1 (Cat path_start (Cat (Star Any) (lit ''.alan'')))) locat_tail)"
  by (simp only: re_locat_def locat_tail_def)

lemma ne_Cat: "matches (Cat a b) st \<noteq> [] \<Longrightarrow> \<exists>y\<in>set (matches a st). matches b y \<noteq> []"
  by (rule ccontr) (simp add: none_Cat)

lemma ne_lit_Cat:
  "matches (Cat (lit u) r) (i, t, g) \<noteq> [] \<Longrightarrow>
   \<exists>t'. t = u @ t' \<and> matches r (i + length u, t', g) \<noteq> []"
  by (auto simp: matches_lit_Cat prefix_def simp del: matches.simps split: if_splits)

lemma ne_num_Cat:
  assumes "matches (Cat (Group n (Plus digit)) r) (i, t, g) \<noteq> []"
  shows "\<exists>ds t' j h. decimal ds \<and> t = ds @ t' \<and> matches r (j, t', h) \<noteq> []"
proof -
  from ne_Cat [OF assms] obtain y where y: "y \<in> set (matches (Group n (Plus digit)) (i, t, g))"
    and ne: "matches r y \<noteq> []" by (rule bexE)
  obtain j t' h where yy: "y = (j, t', h)" by (cases y) auto
  from y have "(j, t', h) \<in> set (matches (Group n (Plus digit)) (i, t, g))" by (simp only: yy)
  from matches_Group_mem [OF this] obtain h0 where
    p: "(j, t', h0) \<in> set (matches (Plus digit) (i, t, g))" by (rule exE)
  then obtain c s where t: "t = c # s" and c: "cs_mem digit c"
    and r: "(j, t') \<in> set (star_run digit (Suc i) s)"
    by (cases t) (auto split: if_splits)
  from star_run_sound [OF r] obtain ds where "s = ds @ t'" "\<forall>c\<in>set ds. cs_mem digit c" by blast
  with t c have "decimal (c # ds) \<and> t = (c # ds) @ t'" by (simp add: decimal_def)
  with ne yy have "decimal (c # ds) \<and> t = (c # ds) @ t' \<and> matches r (j, t', h) \<noteq> []" by simp
  then show ?thesis by (intro exI)
qed

lemma lit_mem: "(j, t', h) \<in> set (matches (lit u) (i, t, g)) \<Longrightarrow> t = u @ t'"
  by (auto simp: matches_lit prefix_def split: if_splits)

lemma ne_sev_Cat:
  assumes "matches (Cat (Group n sev_token) r) (i, t, g) \<noteq> []"
  shows "\<exists>sev t' j h. sev \<in> {''error'', ''warning'', ''info''} \<and> t = sev @ t' \<and>
           matches r (j, t', h) \<noteq> []"
proof -
  from ne_Cat [OF assms] obtain y where y: "y \<in> set (matches (Group n sev_token) (i, t, g))"
    and ne: "matches r y \<noteq> []" by (rule bexE)
  obtain j t' h where yy: "y = (j, t', h)" by (cases y) auto
  note ne' = ne [unfolded yy]
  from y have "(j, t', h) \<in> set (matches (Group n sev_token) (i, t, g))" by (simp only: yy)
  from matches_Group_mem [OF this] obtain h0 where
    "(j, t', h0) \<in> set (matches sev_token (i, t, g))" by (rule exE)
  then have "(j, t', h0) \<in> set (matches (lit ''error'') (i, t, g)) \<or>
     (j, t', h0) \<in> set (matches (lit ''warning'') (i, t, g)) \<or>
     (j, t', h0) \<in> set (matches (lit ''info'') (i, t, g))"
    by (simp only: sev_token_def matches.simps(5) set_append Un_iff)
  then show ?thesis
  proof (elim disjE)
    assume "(j, t', h0) \<in> set (matches (lit ''error'') (i, t, g))"
    then have "t = ''error'' @ t'" by (rule lit_mem)
    moreover have "''error'' \<in> {''error'', ''warning'', ''info''}" by simp
    ultimately have "''error'' \<in> {''error'', ''warning'', ''info''} \<and> t = ''error'' @ t' \<and>
       matches r (j, t', h) \<noteq> []" using ne' by (intro conjI)
    then show ?thesis by (intro exI)
  next
    assume "(j, t', h0) \<in> set (matches (lit ''warning'') (i, t, g))"
    then have "t = ''warning'' @ t'" by (rule lit_mem)
    moreover have "''warning'' \<in> {''error'', ''warning'', ''info''}" by simp
    ultimately have "''warning'' \<in> {''error'', ''warning'', ''info''} \<and> t = ''warning'' @ t' \<and>
       matches r (j, t', h) \<noteq> []" using ne' by (intro conjI)
    then show ?thesis by (intro exI)
  next
    assume "(j, t', h0) \<in> set (matches (lit ''info'') (i, t, g))"
    then have "t = ''info'' @ t'" by (rule lit_mem)
    moreover have "''info'' \<in> {''error'', ''warning'', ''info''}" by simp
    ultimately have "''info'' \<in> {''error'', ''warning'', ''info''} \<and> t = ''info'' @ t' \<and>
       matches r (j, t', h) \<noteq> []" using ne' by (intro conjI)
    then show ?thesis by (intro exI)
  qed
qed

lemma range_tail_sound:
  assumes "matches range_tail (i, t, g) \<noteq> []"
  shows "range_tail_form t"
proof -
  from ne_lit_Cat [OF assms [unfolded range_tail_def]] obtain t1 where
    e1: "t = '' from '' @ t1" and n1: "matches (Cat (Group 2 (Plus digit)) (Cat (lit '':'') (Cat (Group 3 (Plus digit))
       (Cat (lit '' to '') (Cat (Group 4 (Plus digit)) (Cat (lit '':'') (Cat (Group 5 (Plus digit))
       (Cat (lit '' '') (Cat (Group 6 sev_token) (Cat (lit '': '') (Group 7 (Star Any))))))))))))
       (i + length '' from '', t1, g) \<noteq> []" by (elim exE conjE)
  from ne_num_Cat [OF n1] obtain l1 t2 j2 h2 where d1: "decimal l1" and e2: "t1 = l1 @ t2"
    and n2: "matches (Cat (lit '':'') (Cat (Group 3 (Plus digit))
       (Cat (lit '' to '') (Cat (Group 4 (Plus digit)) (Cat (lit '':'') (Cat (Group 5 (Plus digit))
       (Cat (lit '' '') (Cat (Group 6 sev_token) (Cat (lit '': '') (Group 7 (Star Any)))))))))))
       (j2, t2, h2) \<noteq> []" by (elim exE conjE)
  from ne_lit_Cat [OF n2] obtain t3 where e3: "t2 = '':'' @ t3"
    and n3: "matches (Cat (Group 3 (Plus digit))
       (Cat (lit '' to '') (Cat (Group 4 (Plus digit)) (Cat (lit '':'') (Cat (Group 5 (Plus digit))
       (Cat (lit '' '') (Cat (Group 6 sev_token) (Cat (lit '': '') (Group 7 (Star Any))))))))))
       (j2 + length '':'', t3, h2) \<noteq> []" by (elim exE conjE)
  from ne_num_Cat [OF n3] obtain c1 t4 j4 h4 where d2: "decimal c1" and e4: "t3 = c1 @ t4"
    and n4: "matches (Cat (lit '' to '') (Cat (Group 4 (Plus digit)) (Cat (lit '':'') (Cat (Group 5 (Plus digit))
       (Cat (lit '' '') (Cat (Group 6 sev_token) (Cat (lit '': '') (Group 7 (Star Any)))))))))
       (j4, t4, h4) \<noteq> []" by (elim exE conjE)
  from ne_lit_Cat [OF n4] obtain t5 where e5: "t4 = '' to '' @ t5"
    and n5: "matches (Cat (Group 4 (Plus digit)) (Cat (lit '':'') (Cat (Group 5 (Plus digit))
       (Cat (lit '' '') (Cat (Group 6 sev_token) (Cat (lit '': '') (Group 7 (Star Any))))))))
       (j4 + length '' to '', t5, h4) \<noteq> []" by (elim exE conjE)
  from ne_num_Cat [OF n5] obtain l2 t6 j6 h6 where d3: "decimal l2" and e6: "t5 = l2 @ t6"
    and n6: "matches (Cat (lit '':'') (Cat (Group 5 (Plus digit))
       (Cat (lit '' '') (Cat (Group 6 sev_token) (Cat (lit '': '') (Group 7 (Star Any)))))))
       (j6, t6, h6) \<noteq> []" by (elim exE conjE)
  from ne_lit_Cat [OF n6] obtain t7 where e7: "t6 = '':'' @ t7"
    and n7: "matches (Cat (Group 5 (Plus digit))
       (Cat (lit '' '') (Cat (Group 6 sev_token) (Cat (lit '': '') (Group 7 (Star Any))))))
       (j6 + length '':'', t7, h6) \<noteq> []" by (elim exE conjE)
  from ne_num_Cat [OF n7] obtain c2 t8 j8 h8 where d4: "decimal c2" and e8: "t7 = c2 @ t8"
    and n8: "matches (Cat (lit '' '') (Cat (Group 6 sev_token) (Cat (lit '': '') (Group 7 (Star Any)))))
       (j8, t8, h8) \<noteq> []" by (elim exE conjE)
  from ne_lit_Cat [OF n8] obtain t9 where e9: "t8 = '' '' @ t9"
    and n9: "matches (Cat (Group 6 sev_token) (Cat (lit '': '') (Group 7 (Star Any))))
       (j8 + length '' '', t9, h8) \<noteq> []" by (elim exE conjE)
  from ne_sev_Cat [OF n9] obtain sev t10 j10 h10 where s: "sev \<in> {''error'', ''warning'', ''info''}"
    and e10: "t9 = sev @ t10"
    and n10: "matches (Cat (lit '': '') (Group 7 (Star Any))) (j10, t10, h10) \<noteq> []" by (elim exE conjE)
  from ne_lit_Cat [OF n10] obtain r where e11: "t10 = '': '' @ r" by (elim exE conjE)
  have "t = '' from '' @ l1 @ '':'' @ c1 @ '' to '' @ l2 @ '':'' @ c2 @ '' '' @ sev @ '': '' @ r"
    by (simp only: e1 e2 e3 e4 e5 e6 e7 e8 e9 e10 e11)
  with d1 d2 d3 d4 s have "decimal l1 \<and> decimal c1 \<and> decimal l2 \<and> decimal c2 \<and>
        sev \<in> {''error'', ''warning'', ''info''} \<and>
        t = '' from '' @ l1 @ '':'' @ c1 @ '' to '' @ l2 @ '':'' @ c2 @ '' '' @ sev @ '': '' @ r"
    by (intro conjI)
  then show ?thesis unfolding range_tail_form_def by (intro exI)
qed

lemma locat_tail_sound:
  assumes "matches locat_tail (i, t, g) \<noteq> []"
  shows "point_tail_form t"
proof -
  from ne_lit_Cat [OF assms [unfolded locat_tail_def]] obtain t1 where
    e1: "t = '' at '' @ t1" and n1: "matches (Cat (Group 2 (Plus digit)) (Cat (lit '':'') (Cat (Group 3 (Plus digit))
       (Cat (lit '' '') (Cat (Group 4 sev_token) (Cat (lit '': '') (Group 5 (Star Any))))))))
       (i + length '' at '', t1, g) \<noteq> []" by (elim exE conjE)
  from ne_num_Cat [OF n1] obtain l t2 j2 h2 where d1: "decimal l" and e2: "t1 = l @ t2"
    and n2: "matches (Cat (lit '':'') (Cat (Group 3 (Plus digit))
       (Cat (lit '' '') (Cat (Group 4 sev_token) (Cat (lit '': '') (Group 5 (Star Any)))))))
       (j2, t2, h2) \<noteq> []" by (elim exE conjE)
  from ne_lit_Cat [OF n2] obtain t3 where e3: "t2 = '':'' @ t3"
    and n3: "matches (Cat (Group 3 (Plus digit))
       (Cat (lit '' '') (Cat (Group 4 sev_token) (Cat (lit '': '') (Group 5 (Star Any))))))
       (j2 + length '':'', t3, h2) \<noteq> []" by (elim exE conjE)
  from ne_num_Cat [OF n3] obtain c t4 j4 h4 where d2: "decimal c" and e4: "t3 = c @ t4"
    and n4: "matches (Cat (lit '' '') (Cat (Group 4 sev_token) (Cat (lit '': '') (Group 5 (Star Any)))))
       (j4, t4, h4) \<noteq> []" by (elim exE conjE)
  from ne_lit_Cat [OF n4] obtain t5 where e5: "t4 = '' '' @ t5"
    and n5: "matches (Cat (Group 4 sev_token) (Cat (lit '': '') (Group 5 (Star Any))))
       (j4 + length '' '', t5, h4) \<noteq> []" by (elim exE conjE)
  from ne_sev_Cat [OF n5] obtain sev t6 j6 h6 where s: "sev \<in> {''error'', ''warning'', ''info''}"
    and e6: "t5 = sev @ t6"
    and n6: "matches (Cat (lit '': '') (Group 5 (Star Any))) (j6, t6, h6) \<noteq> []" by (elim exE conjE)
  from ne_lit_Cat [OF n6] obtain r where e7: "t6 = '': '' @ r" by (elim exE conjE)
  have "t = '' at '' @ l @ '':'' @ c @ '' '' @ sev @ '': '' @ r"
    by (simp only: e1 e2 e3 e4 e5 e6 e7)
  with d1 d2 s have "decimal l \<and> decimal c \<and> sev \<in> {''error'', ''warning'', ''info''} \<and>
        t = '' at '' @ l @ '':'' @ c @ '' '' @ sev @ '': '' @ r"
    by (intro conjI)
  then show ?thesis unfolding point_tail_form_def by (intro exI)
qed


lemma decimal_one_line: "decimal ds \<Longrightarrow> one_line ds"
  by (auto simp: decimal_def one_line_def digit_def)

lemma sev_one_line: "sev \<in> {''error'', ''warning'', ''info''} \<Longrightarrow> one_line sev"
  by (auto simp: one_line_def)

lemma one_line_append: "one_line (a @ b) = (one_line a \<and> one_line b)"
  by (auto simp: one_line_def)


lemma range_tail_leads:
  assumes "decimal l1" "decimal c1" "decimal l2" "decimal c2"
    and "sev \<in> {''error'', ''warning'', ''info''}"
  shows "\<exists>j t. leads range_tail
     (i, '' from '' @ l1 @ '':'' @ c1 @ '' to '' @ l2 @ '':'' @ c2 @ '' '' @ sev @ '': '' @ msg, g)
     (j, t, g(2 \<mapsto> l1, 3 \<mapsto> c1, 4 \<mapsto> l2, 5 \<mapsto> c2, 6 \<mapsto> sev, 7 \<mapsto> takeWhile (cs_mem Any) msg))"
proof -
  have nd: "\<not> cs_mem digit CHR '':''" "\<not> cs_mem digit CHR '' ''" by (simp_all add: digit_def)
  show ?thesis
    unfolding range_tail_def
    apply (intro exI)
    apply (rule leads_Cat [OF leads_lit])
    apply (rule leads_Cat [OF leads_Group_Plus])
       apply (use assms(1) in \<open>simp add: decimal_def\<close>)
      apply (use assms(1) in \<open>simp add: decimal_def\<close>)
     apply (simp add: nd)
    apply (rule leads_Cat [OF leads_lit])
    apply (rule leads_Cat [OF leads_Group_Plus])
       apply (use assms(2) in \<open>simp add: decimal_def\<close>)
      apply (use assms(2) in \<open>simp add: decimal_def\<close>)
     apply (simp add: nd)
    apply (rule leads_Cat [OF leads_lit])
    apply (rule leads_Cat [OF leads_Group_Plus])
       apply (use assms(3) in \<open>simp add: decimal_def\<close>)
      apply (use assms(3) in \<open>simp add: decimal_def\<close>)
     apply (simp add: nd)
    apply (rule leads_Cat [OF leads_lit])
    apply (rule leads_Cat [OF leads_Group_Plus])
       apply (use assms(4) in \<open>simp add: decimal_def\<close>)
      apply (use assms(4) in \<open>simp add: decimal_def\<close>)
     apply (simp add: nd)
    apply (rule leads_Cat [OF leads_lit])
    apply (rule leads_Cat [OF leads_Group_sev [OF assms(5)]])
    apply (rule leads_Cat [OF leads_lit])
    apply (rule leads_Group_Star_line)
    done
qed

lemma locat_tail_leads:
  assumes "decimal l" "decimal c"
    and "sev \<in> {''error'', ''warning'', ''info''}"
  shows "\<exists>j t. leads locat_tail
     (i, '' at '' @ l @ '':'' @ c @ '' '' @ sev @ '': '' @ msg, g)
     (j, t, g(2 \<mapsto> l, 3 \<mapsto> c, 4 \<mapsto> sev, 5 \<mapsto> takeWhile (cs_mem Any) msg))"
proof -
  have nd: "\<not> cs_mem digit CHR '':''" "\<not> cs_mem digit CHR '' ''" by (simp_all add: digit_def)
  show ?thesis
    unfolding locat_tail_def
    apply (intro exI)
    apply (rule leads_Cat [OF leads_lit])
    apply (rule leads_Cat [OF leads_Group_Plus])
       apply (use assms(1) in \<open>simp add: decimal_def\<close>)
      apply (use assms(1) in \<open>simp add: decimal_def\<close>)
     apply (simp add: nd)
    apply (rule leads_Cat [OF leads_lit])
    apply (rule leads_Cat [OF leads_Group_Plus])
       apply (use assms(2) in \<open>simp add: decimal_def\<close>)
      apply (use assms(2) in \<open>simp add: decimal_def\<close>)
     apply (simp add: nd)
    apply (rule leads_Cat [OF leads_lit])
    apply (rule leads_Cat [OF leads_Group_sev [OF assms(3)]])
    apply (rule leads_Cat [OF leads_lit])
    apply (rule leads_Group_Star_line)
    done
qed

section \<open>The diagnostic parser: lines with a range\<close>


lemma range_greedy:
  assumes ps: "is_path_start p"
    and s0: "s = a0 @ ''.alan'' @ t0" and a0: "one_line a0" and t0: "range_tail_form t0"
  shows "\<exists>m a t. js_match re_range (p @ s) = Some m \<and> m 1 = Some (p @ a @ ''.alan'') \<and>
           s = a @ ''.alan'' @ t \<and> range_tail_form t \<and> length a0 \<le> length a"
proof -
  have ext: "\<forall>c\<in>set (CHR ''.'' # ''alan''). cs_mem Any c" by simp
  from a0 have a0': "\<forall>c\<in>set a0. cs_mem Any c" by (simp add: one_line_def)
  from s0 have s0': "s = a0 @ (CHR ''.'' # ''alan'') @ t0" by simp
  have "\<exists>a t. s = a @ (CHR ''.'' # ''alan'') @ t \<and> (\<forall>c\<in>set a. cs_mem Any c) \<and> range_tail_form t \<and>
          length a0 \<le> length a \<and>
          (\<forall>y. leads range_tail (length (p @ a @ CHR ''.'' # ''alan''), t,
                  Map.empty(1 \<mapsto> p @ a @ CHR ''.'' # ''alan'')) y \<longrightarrow>
             leads (Cat (Group 1 (Cat path_start (Cat (Star Any) (lit (CHR ''.'' # ''alan''))))) range_tail)
               (0, p @ s, Map.empty) y)"
    by (rule path_group_greedy [where r = range_tail and F = range_tail_form,
          OF ps ext range_tail_sound s0' a0' t0])
  then obtain a t where s: "s = a @ (CHR ''.'' # ''alan'') @ t" and ft: "range_tail_form t"
    and le: "length a0 \<le> length a"
    and lead': "\<forall>y. leads range_tail (length (p @ a @ CHR ''.'' # ''alan''), t,
                   Map.empty(1 \<mapsto> p @ a @ CHR ''.'' # ''alan'')) y \<longrightarrow>
       leads (Cat (Group 1 (Cat path_start (Cat (Star Any) (lit (CHR ''.'' # ''alan''))))) range_tail)
         (0, p @ s, Map.empty) y"
    by (elim exE conjE)
  note lead = lead' [rule_format]
  from ft obtain l1 c1 l2 c2 sev r where num: "decimal l1" "decimal c1" "decimal l2" "decimal c2"
    and sev: "sev \<in> {''error'', ''warning'', ''info''}"
    and t: "t = '' from '' @ l1 @ '':'' @ c1 @ '' to '' @ l2 @ '':'' @ c2 @ '' '' @ sev @ '': '' @ r"
    unfolding range_tail_form_def by (elim exE conjE)
  let ?g = "(Map.empty :: captures)(1 \<mapsto> p @ a @ CHR ''.'' # ''alan'')"
  let ?h = "?g(2 \<mapsto> l1, 3 \<mapsto> c1, 4 \<mapsto> l2, 5 \<mapsto> c2, 6 \<mapsto> sev, 7 \<mapsto> takeWhile (cs_mem Any) r)"
  from range_tail_leads [OF num sev, of "length (p @ a @ CHR ''.'' # ''alan'')" r ?g]
  obtain j u where "leads range_tail (length (p @ a @ CHR ''.'' # ''alan''), t, ?g) (j, u, ?h)"
    unfolding t by (elim exE)
  from js_match_leads [OF lead [OF this]]
  have "js_match re_range (p @ s) = Some (?h(0 \<mapsto> take j (p @ s)))"
    unfolding re_range_split by simp
  moreover have "(?h(0 \<mapsto> take j (p @ s))) 1 = Some (p @ a @ ''.alan'')" by simp
  moreover from s have "s = a @ ''.alan'' @ t" by simp
  ultimately show ?thesis using ft le by (intro exI conjI)
qed

lemma range_no_match:
  assumes ps: "is_path_start p" and no: "\<not> range_again s"
  shows "js_match re_range (p @ s) = None"
proof -
  have never: "matches range_tail (j, t, h) = []"
    if eq: "s = a @ ''.alan'' @ t" and al: "\<forall>c\<in>set a. cs_mem Any c" for a t j h
  proof (rule ccontr)
    assume "matches range_tail (j, t, h) \<noteq> []"
    then have "range_tail_form t" by (rule range_tail_sound)
    moreover from al have "one_line a" by (simp add: one_line_def)
    ultimately have "s = a @ ''.alan'' @ t \<and> one_line a \<and> range_tail_form t"
      using eq by (intro conjI)
    then have "range_again s" unfolding range_again_def by (intro exI)
    with no show False by (rule notE)
  qed
  show ?thesis
    unfolding re_range_split
    by (rule js_match_none, rule path_group_never [OF ps never])
qed


text \<open>
  The condition on the message cannot be left out: when the message holds the
  range pattern again, the file of the new diagnostic is a longer text than
  the path.
\<close>

lemma range_again_longer:
  assumes ps: "is_path_start p" and mid: "one_line mid"
    and num: "decimal l1" "decimal c1" "decimal l2" "decimal c2"
    and sev: "sev \<in> {''error'', ''warning'', ''info''}"
    and msg: "range_again msg"
  shows "\<exists>a. length mid < length a \<and>
     diagnostics (parse_line (p @ mid @ ''.alan'' @ '' from '' @ l1 @ '':'' @ c1 @ '' to '' @ l2 @
            '':'' @ c2 @ '' '' @ sev @ '': '' @ msg) st) =
     diagnostics st @ [(Uri_file (p @ a @ ''.alan''), [length (objects st)])]"
proof -
  let ?head = "''.alan from '' @ l1 @ '':'' @ c1 @ '' to '' @ l2 @ '':'' @ c2 @ '' '' @ sev @ '': ''"
  let ?s = "mid @ ''.alan'' @ '' from '' @ l1 @ '':'' @ c1 @ '' to '' @ l2 @ '':'' @ c2 @ '' '' @
            sev @ '': '' @ msg"
  from msg obtain b t0 where m: "msg = b @ ''.alan'' @ t0" and b: "one_line b"
    and t0: "range_tail_form t0" unfolding range_again_def by (elim exE conjE)
  have lit: "one_line ''.alan from ''" "one_line '':''" "one_line '' to ''" "one_line '' ''"
    "one_line '': ''" by (simp_all add: one_line_def)
  have "one_line ?head"
    by (simp only: one_line_append lit num [THEN decimal_one_line] sev [THEN sev_one_line])
  with mid b have a0: "one_line (mid @ ?head @ b)" by (simp only: one_line_append simp_thms)
  have s0: "?s = (mid @ ?head @ b) @ ''.alan'' @ t0" by (simp add: m)
  from range_greedy [OF ps s0 a0 t0] obtain g a t where
    g: "js_match re_range (p @ ?s) = Some g" and g1: "g 1 = Some (p @ a @ ''.alan'')"
    and le: "length (mid @ ?head @ b) \<le> length a" by (elim exE conjE)
  from g1 have g1': "g (Suc 0) = Some (p @ a @ ''.alan'')" by simp
  from le have "length mid < length a" by simp
  moreover have "diagnostics (parse_line (p @ ?s) st) =
      diagnostics st @ [(Uri_file (p @ a @ ''.alan''), [length (objects st)])]"
    unfolding parse_line_def g by (simp add: grp_def g1' push_diagnostic_def)
  ultimately show ?thesis by (intro exI conjI)
qed




section \<open>The diagnostic parser: lines with a position\<close>


lemma point_greedy:
  assumes ps: "is_path_start p"
    and s0: "s = a0 @ ''.alan'' @ t0" and a0: "one_line a0" and t0: "point_tail_form t0"
  shows "\<exists>m a t. js_match re_locat (p @ s) = Some m \<and> m 1 = Some (p @ a @ ''.alan'') \<and>
           s = a @ ''.alan'' @ t \<and> point_tail_form t \<and> length a0 \<le> length a"
proof -
  have ext: "\<forall>c\<in>set (CHR ''.'' # ''alan''). cs_mem Any c" by simp
  from a0 have a0': "\<forall>c\<in>set a0. cs_mem Any c" by (simp add: one_line_def)
  from s0 have s0': "s = a0 @ (CHR ''.'' # ''alan'') @ t0" by simp
  have "\<exists>a t. s = a @ (CHR ''.'' # ''alan'') @ t \<and> (\<forall>c\<in>set a. cs_mem Any c) \<and> point_tail_form t \<and>
          length a0 \<le> length a \<and>
          (\<forall>y. leads locat_tail (length (p @ a @ CHR ''.'' # ''alan''), t,
                  Map.empty(1 \<mapsto> p @ a @ CHR ''.'' # ''alan'')) y \<longrightarrow>
             leads (Cat (Group 1 (Cat path_start (Cat (Star Any) (lit (CHR ''.'' # ''alan''))))) locat_tail)
               (0, p @ s, Map.empty) y)"
    by (rule path_group_greedy [where r = locat_tail and F = point_tail_form,
          OF ps ext locat_tail_sound s0' a0' t0])
  then obtain a t where s: "s = a @ (CHR ''.'' # ''alan'') @ t" and ft: "point_tail_form t"
    and le: "length a0 \<le> length a"
    and lead': "\<forall>y. leads locat_tail (length (p @ a @ CHR ''.'' # ''alan''), t,
                   Map.empty(1 \<mapsto> p @ a @ CHR ''.'' # ''alan'')) y \<longrightarrow>
       leads (Cat (Group 1 (Cat path_start (Cat (Star Any) (lit (CHR ''.'' # ''alan''))))) locat_tail)
         (0, p @ s, Map.empty) y"
    by (elim exE conjE)
  note lead = lead' [rule_format]
  from ft obtain l c sev r where num: "decimal l" "decimal c"
    and sev: "sev \<in> {''error'', ''warning'', ''info''}"
    and t: "t = '' at '' @ l @ '':'' @ c @ '' '' @ sev @ '': '' @ r"
    unfolding point_tail_form_def by (elim exE conjE)
  let ?g = "(Map.empty :: captures)(1 \<mapsto> p @ a @ CHR ''.'' # ''alan'')"
  let ?h = "?g(2 \<mapsto> l, 3 \<mapsto> c, 4 \<mapsto> sev, 5 \<mapsto> takeWhile (cs_mem Any) r)"
  from locat_tail_leads [OF num sev, of "length (p @ a @ CHR ''.'' # ''alan'')" r ?g]
  obtain j u where "leads locat_tail (length (p @ a @ CHR ''.'' # ''alan''), t, ?g) (j, u, ?h)"
    unfolding t by (elim exE)
  from js_match_leads [OF lead [OF this]]
  have "js_match re_locat (p @ s) = Some (?h(0 \<mapsto> take j (p @ s)))"
    unfolding re_locat_split by simp
  moreover have "(?h(0 \<mapsto> take j (p @ s))) 1 = Some (p @ a @ ''.alan'')" by simp
  moreover from s have "s = a @ ''.alan'' @ t" by simp
  ultimately show ?thesis using ft le by (intro exI conjI)
qed



text \<open>
  Neither condition can be left out: when the range pattern matches the line,
  or the message holds the position pattern again, the file of the new
  diagnostic is another text than the path.
\<close>

lemma range_first_other:
  assumes ps: "is_path_start p"
    and rng: "range_again (mid @ ''.alan'' @ '' at '' @ rest)"
  shows "\<exists>a. a \<noteq> mid \<and>
     diagnostics (parse_line (p @ mid @ ''.alan'' @ '' at '' @ rest) st) =
     diagnostics st @ [(Uri_file (p @ a @ ''.alan''), [length (objects st)])]"
proof -
  let ?s = "mid @ ''.alan'' @ '' at '' @ rest"
  from rng obtain a0 t0 where "?s = a0 @ ''.alan'' @ t0" "one_line a0" "range_tail_form t0"
    unfolding range_again_def by (elim exE conjE)
  from range_greedy [OF ps this] obtain g a t where
    g: "js_match re_range (p @ ?s) = Some g" and g1: "g 1 = Some (p @ a @ ''.alan'')"
    and s: "?s = a @ ''.alan'' @ t" and ft: "range_tail_form t" by (elim exE conjE)
  from ft obtain r where t: "t = '' from '' @ r" unfolding range_tail_form_def by auto
  have "a \<noteq> mid"
  proof
    assume "a = mid"
    with s t show False by simp
  qed
  from g1 have g1': "g (Suc 0) = Some (p @ a @ ''.alan'')" by simp
  have "diagnostics (parse_line (p @ ?s) st) =
      diagnostics st @ [(Uri_file (p @ a @ ''.alan''), [length (objects st)])]"
    unfolding parse_line_def g by (simp add: grp_def g1' push_diagnostic_def)
  with \<open>a \<noteq> mid\<close> show ?thesis by (intro exI conjI)
qed

lemma point_again_longer:
  assumes ps: "is_path_start p" and mid: "one_line mid"
    and num: "decimal l" "decimal c"
    and sev: "sev \<in> {''error'', ''warning'', ''info''}"
    and msg: "point_again msg"
    and rng: "\<not> range_again (mid @ ''.alan'' @ '' at '' @ l @ '':'' @ c @ '' '' @ sev @ '': '' @ msg)"
  shows "\<exists>a. length mid < length a \<and>
     diagnostics (parse_line (p @ mid @ ''.alan'' @ '' at '' @ l @ '':'' @ c @ '' '' @ sev @ '': '' @ msg) st) =
     diagnostics st @ [(Uri_file (p @ a @ ''.alan''), [length (objects st)])]"
proof -
  let ?head = "''.alan at '' @ l @ '':'' @ c @ '' '' @ sev @ '': ''"
  let ?s = "mid @ ''.alan'' @ '' at '' @ l @ '':'' @ c @ '' '' @ sev @ '': '' @ msg"
  from msg obtain b t0 where m: "msg = b @ ''.alan'' @ t0" and b: "one_line b"
    and t0: "point_tail_form t0" unfolding point_again_def by (elim exE conjE)
  have lit: "one_line ''.alan at ''" "one_line '':''" "one_line '' ''"
    "one_line '': ''" by (simp_all add: one_line_def)
  have "one_line ?head"
    by (simp only: one_line_append lit num [THEN decimal_one_line] sev [THEN sev_one_line])
  with mid b have a0: "one_line (mid @ ?head @ b)" by (simp only: one_line_append simp_thms)
  have s0: "?s = (mid @ ?head @ b) @ ''.alan'' @ t0" by (simp add: m)
  from point_greedy [OF ps s0 a0 t0] obtain g a t where
    g: "js_match re_locat (p @ ?s) = Some g" and g1: "g 1 = Some (p @ a @ ''.alan'')"
    and le: "length (mid @ ?head @ b) \<le> length a" by (elim exE conjE)
  note r = range_no_match [OF ps rng]
  from g1 have g1': "g (Suc 0) = Some (p @ a @ ''.alan'')" by simp
  from le have "length mid < length a" by simp
  moreover have "diagnostics (parse_line (p @ ?s) st) =
      diagnostics st @ [(Uri_file (p @ a @ ''.alan''), [length (objects st)])]"
    unfolding parse_line_def r g by (simp add: grp_def g1' push_diagnostic_def)
  ultimately show ?thesis by (intro exI conjI)
qed




section \<open>The diagnostic parser: continuation lines\<close>

lemma no_path_start:
  "matches path_start st = [] \<Longrightarrow> matches (Cat (Group n (Cat path_start x)) r) st = []"
  by (cases st) simp

lemma no_path_start_no_pattern:
  assumes "matches path_start (0, line, Map.empty) = []"
  shows "\<not> matches_pattern line"
  unfolding matches_pattern_def re_range_def re_locat_def re_link_def re_other_def
  by (simp only: js_match_none [OF no_path_start [OF assms]] not_False_eq_True simp_thms)

lemma tab_no_pattern: "prefix [TAB] line \<Longrightarrow> \<not> matches_pattern line"
proof -
  assume "prefix [TAB] line"
  then obtain s where "line = TAB # s" by (auto simp: prefix_def)
  then have "matches path_start (0, line, Map.empty) = []"
    by (simp add: path_start_def letter_def)
  then show ?thesis by (rule no_path_start_no_pattern)
qed

lemma parse_line_no_pattern:
  "\<not> matches_pattern line \<Longrightarrow>
   parse_line line st =
     (case current_diagnostic st of
        Some a \<Rightarrow> if prefix [TAB] line then append_message line a st else st
      | None \<Rightarrow> st)"
  by (simp add: matches_pattern_def parse_line_def)


lemma parse_lines_snoc: "parse_lines (ls @ [l]) st = parse_line l (parse_lines ls st)"
  by (simp add: parse_lines_def)

lemma parse_lines_no_pattern:
  "\<forall>l\<in>set ls. \<not> matches_pattern l \<Longrightarrow> parse_lines ls initial_state = initial_state"
proof (induction ls rule: rev_induct)
  case Nil
  show ?case by (simp add: parse_lines_def)
next
  case (snoc l ls)
  then have "parse_lines ls initial_state = initial_state" and "\<not> matches_pattern l" by simp_all
  then show ?case
    by (simp add: parse_lines_snoc parse_line_no_pattern) (simp add: initial_state_def)
qed

text \<open>
  Claim C10. A line that starts with a tab, after lines that no pattern
  matches, leaves the state of the parser as it was, with no diagnostic; the
  output whose lines all start with a tab gives no diagnostics.
\<close>

theorem tab_without_diagnostic:
  "((\<forall>k\<in>set ls. \<not> matches_pattern k) \<and> prefix [TAB] l \<longrightarrow>
      parse_lines (ls @ [l]) initial_state = parse_lines ls initial_state \<and>
      diagnostics (parse_lines (ls @ [l]) initial_state) = [] \<and>
      collected (parse_lines (ls @ [l]) initial_state) = []) \<and>
   ((\<forall>k\<in>set (split_on LF output_acc). prefix [TAB] k) \<longrightarrow> parse_output output_acc = [])"
proof (intro conjI impI)
  assume a: "(\<forall>k\<in>set ls. \<not> matches_pattern k) \<and> prefix [TAB] l"
  then have "\<forall>k\<in>set (ls @ [l]). \<not> matches_pattern k" by (auto dest: tab_no_pattern)
  then have e: "parse_lines (ls @ [l]) initial_state = initial_state"
    by (rule parse_lines_no_pattern)
  from a have "parse_lines ls initial_state = initial_state"
    by (simp add: parse_lines_no_pattern)
  with e show "parse_lines (ls @ [l]) initial_state = parse_lines ls initial_state" by simp
  from e show "diagnostics (parse_lines (ls @ [l]) initial_state) = []"
    by (simp add: initial_state_def)
  from e show "collected (parse_lines (ls @ [l]) initial_state) = []"
    by (simp add: initial_state_def collected_def)
next
  assume "\<forall>k\<in>set (split_on LF output_acc). prefix [TAB] k"
  then have "\<forall>k\<in>set (split_on LF output_acc). \<not> matches_pattern k"
    by (auto dest: tab_no_pattern)
  then show "parse_output output_acc = []"
    by (simp add: parse_output_def parse_lines_no_pattern) (simp add: initial_state_def collected_def)
qed

theorem tab_without_diagnostic_witness:
  "\<not> matches_pattern ''Compiling project'' \<and> prefix [TAB] (TAB # ''detail'') \<and>
   parse_lines ([''Compiling project''] @ [TAB # ''detail'']) initial_state = initial_state \<and>
   split_on LF (TAB # ''a'' @ [LF, TAB] @ ''b'') = [TAB # ''a'', TAB # ''b''] \<and>
   parse_output (TAB # ''a'' @ [LF, TAB] @ ''b'') = []"
proof -
  have n: "\<not> matches_pattern ''Compiling project''"
    by (rule no_path_start_no_pattern) (simp add: path_start_def letter_def)
  have p: "prefix [TAB] (TAB # ''detail'')" by simp
  have s: "\<forall>k\<in>set (split_on LF (TAB # ''a'' @ [LF, TAB] @ ''b'')). prefix [TAB] k" by simp
  have i: "parse_lines [''Compiling project''] initial_state = initial_state"
    using n by (simp add: parse_lines_def parse_line_no_pattern initial_state_def)
  from n have n': "\<forall>k\<in>set [''Compiling project'']. \<not> matches_pattern k" by simp
  note t = tab_without_diagnostic [of "[''Compiling project'']" "TAB # ''detail''" "TAB # ''a'' @ [LF, TAB] @ ''b''"]
  have "parse_lines ([''Compiling project''] @ [TAB # ''detail'']) initial_state =
      parse_lines [''Compiling project''] initial_state"
    by (rule t [THEN conjunct1, THEN mp, OF conjI [OF n' p], THEN conjunct1])
  with i have a: "parse_lines ([''Compiling project''] @ [TAB # ''detail'']) initial_state = initial_state"
    by (simp only:)
  have b: "parse_output (TAB # ''a'' @ [LF, TAB] @ ''b'') = []"
    by (rule t [THEN conjunct2, THEN mp, OF s])
  have s': "split_on LF (TAB # ''a'' @ [LF, TAB] @ ''b'') = [TAB # ''a'', TAB # ''b'']" by simp
  from n p a s' b show ?thesis by (intro conjI)
qed













end
